theory Spec2Isabelle
  imports Complex_Main "HOL-Library.Word"
begin

section \<open>JavaScript numbers under exact arithmetic\<close>

text \<open>
  A JavaScript \<open>number\<close> is an IEEE double.  The model keeps the special values of
  the format (the two infinities and NaN) and the rules by which they arise and
  propagate, and computes the finite values exactly, as rationals: there is no
  rounding and no overflow to infinity.  Zero is unsigned and behaves as \<open>+0\<close>.
\<close>

datatype number = Fin rat | PosInf | NegInf | NaN

instantiation number :: "{zero, one, plus, uminus, minus, times, inverse, ord}"
begin

definition zero_number :: number where
  "zero_number = Fin 0"

definition one_number :: number where
  "one_number = Fin 1"

fun plus_number :: "number \<Rightarrow> number \<Rightarrow> number" where
  "plus_number NaN b = NaN"
| "plus_number a NaN = NaN"
| "plus_number (Fin a) (Fin b) = Fin (a + b)"
| "plus_number PosInf NegInf = NaN"
| "plus_number NegInf PosInf = NaN"
| "plus_number PosInf b = PosInf"
| "plus_number a PosInf = PosInf"
| "plus_number NegInf b = NegInf"
| "plus_number a NegInf = NegInf"

fun uminus_number :: "number \<Rightarrow> number" where
  "uminus_number (Fin a) = Fin (- a)"
| "uminus_number PosInf = NegInf"
| "uminus_number NegInf = PosInf"
| "uminus_number NaN = NaN"

definition minus_number :: "number \<Rightarrow> number \<Rightarrow> number" where
  "minus_number a b = a + (- b)"

definition signed_inf :: "bool \<Rightarrow> number" where
  "signed_inf positive = (if positive then PosInf else NegInf)"

fun times_number :: "number \<Rightarrow> number \<Rightarrow> number" where
  "times_number NaN b = NaN"
| "times_number a NaN = NaN"
| "times_number (Fin a) (Fin b) = Fin (a * b)"
| "times_number (Fin a) PosInf = (if a = 0 then NaN else signed_inf (0 < a))"
| "times_number (Fin a) NegInf = (if a = 0 then NaN else signed_inf (a < 0))"
| "times_number PosInf (Fin b) = (if b = 0 then NaN else signed_inf (0 < b))"
| "times_number NegInf (Fin b) = (if b = 0 then NaN else signed_inf (b < 0))"
| "times_number PosInf PosInf = PosInf"
| "times_number NegInf NegInf = PosInf"
| "times_number PosInf NegInf = NegInf"
| "times_number NegInf PosInf = NegInf"

fun divide_number :: "number \<Rightarrow> number \<Rightarrow> number" where
  "divide_number NaN b = NaN"
| "divide_number a NaN = NaN"
| "divide_number (Fin a) (Fin b) =
     (if b = 0 then (if a = 0 then NaN else signed_inf (0 < a)) else Fin (a / b))"
| "divide_number (Fin a) b = Fin 0"
| "divide_number PosInf (Fin b) = signed_inf (0 \<le> b)"
| "divide_number NegInf (Fin b) = signed_inf (b < 0)"
| "divide_number a b = NaN"

definition inverse_number :: "number \<Rightarrow> number" where
  "inverse_number a = divide (Fin 1) a"

text \<open>The comparisons \<open><=\<close> and \<open><\<close>: false as soon as an operand is NaN.\<close>

fun less_eq_number :: "number \<Rightarrow> number \<Rightarrow> bool" where
  "less_eq_number NaN b = False"
| "less_eq_number a NaN = False"
| "less_eq_number (Fin a) (Fin b) = (a \<le> b)"
| "less_eq_number PosInf PosInf = True"
| "less_eq_number NegInf b = True"
| "less_eq_number (Fin a) PosInf = True"
| "less_eq_number a b = False"

fun less_number :: "number \<Rightarrow> number \<Rightarrow> bool" where
  "less_number NaN b = False"
| "less_number a NaN = False"
| "less_number (Fin a) (Fin b) = (a < b)"
| "less_number PosInf b = False"
| "less_number a NegInf = False"
| "less_number a b = True"

instance ..

end

text \<open>\<open>Number.isFinite\<close>\<close>

fun isFinite :: "number \<Rightarrow> bool" where
  "isFinite (Fin a) = True"
| "isFinite a = False"

text \<open>
  Reading a typed array.  An index past the end yields \<open>undefined\<close>, which every
  arithmetic operator of the program turns into NaN; a write past the end is ignored,
  which is what \<open>xs[i := v]\<close> does.  \<open>sample\<close> reads an image buffer, whose elements
  are non-negative integers, and \<open>cell\<close> reads a \<open>Float64Array\<close>.
\<close>

definition sample :: "nat list \<Rightarrow> nat \<Rightarrow> number" where
  "sample img i = (if i < length img then Fin (of_nat (img ! i)) else NaN)"

definition cell :: "number list \<Rightarrow> nat \<Rightarrow> number" where
  "cell sat i = (if i < length sat then sat ! i else NaN)"

section \<open>The program\<close>

text \<open>
  The function \<open>ssimGrey\<close> of \<open>src/index.ts\<close>.  The dimensions, the window size and the bit
  depth are modelled at their non-negative integer values and the multipliers \<open>k1\<close> and
  \<open>k2\<close> at their finite values; an image buffer is the list of its samples, and a
  \<open>Float64Array\<close> the list of its cells.  An absent options object, or an absent field of
  it, is \<open>None\<close>.
\<close>

record SsimGreyOptions =
  windowSize :: "nat option"
  k1 :: "rat option"
  k2 :: "rat option"
  bitDepth :: "nat option"

text \<open>\<open>options?.field ?? dflt\<close>\<close>

definition option_or :: "SsimGreyOptions option \<Rightarrow> (SsimGreyOptions \<Rightarrow> 'a option) \<Rightarrow> 'a \<Rightarrow> 'a" where
  "option_or options field dflt =
     (case options of
        None \<Rightarrow> dflt
      | Some opts \<Rightarrow> (case field opts of None \<Rightarrow> dflt | Some v \<Rightarrow> v))"

text \<open>
  \<open>(1 << bitDepth) - 1\<close>: the shift works on 32-bit integers, takes its count modulo 32
  and gives a signed 32-bit result; the subtraction is on doubles.
\<close>

definition dynamicRange :: "nat \<Rightarrow> int" where
  "dynamicRange depth = sint (push_bit (depth mod 32) (1 :: 32 word)) - 1"

text \<open>\<open>k * L * (k * L)\<close>\<close>

definition stability :: "rat \<Rightarrow> int \<Rightarrow> number" where
  "stability k L = Fin k * Fin (of_int L) * (Fin k * Fin (of_int L))"

text \<open>The five summed-area tables, each a flat array of \<open>satSize\<close> cells, initially zero.\<close>

record sats =
  satX :: "number list"
  satY :: "number list"
  satX2 :: "number list"
  satY2 :: "number list"
  satXY :: "number list"

definition newSats :: "nat \<Rightarrow> sats" where
  "newSats satSize =
     \<lparr>satX = replicate satSize (Fin 0), satY = replicate satSize (Fin 0),
      satX2 = replicate satSize (Fin 0), satY2 = replicate satSize (Fin 0),
      satXY = replicate satSize (Fin 0)\<rparr>"

text \<open>The body of the inner loop of the table construction, at pixel \<open>(x, y)\<close>.\<close>

definition satStep :: "nat list \<Rightarrow> nat list \<Rightarrow> nat \<Rightarrow> nat \<Rightarrow> nat \<Rightarrow> sats \<Rightarrow> sats" where
  "satStep img1 img2 width y x s =
     (let px = sample img1 (y * width + x);
          py = sample img2 (y * width + x);
          sw = width + 1;
          i = (y + 1) * sw + (x + 1);
          above = i - sw;
          left = i - 1;
          aboveLeft = above - 1
      in \<lparr>satX = (satX s)[i := px + cell (satX s) above + cell (satX s) left - cell (satX s) aboveLeft],
          satY = (satY s)[i := py + cell (satY s) above + cell (satY s) left - cell (satY s) aboveLeft],
          satX2 = (satX2 s)[i := px * px + cell (satX2 s) above + cell (satX2 s) left - cell (satX2 s) aboveLeft],
          satY2 = (satY2 s)[i := py * py + cell (satY2 s) above + cell (satY2 s) left - cell (satY2 s) aboveLeft],
          satXY = (satXY s)[i := px * py + cell (satXY s) above + cell (satXY s) left - cell (satXY s) aboveLeft]\<rparr>)"

text \<open>The two nested loops that fill the five tables in a single pass.\<close>

definition buildSats :: "nat list \<Rightarrow> nat list \<Rightarrow> nat \<Rightarrow> nat \<Rightarrow> sats" where
  "buildSats img1 img2 width height =
     fold (\<lambda>y. fold (\<lambda>x. satStep img1 img2 width y x) [0..<width]) [0..<height]
       (newSats ((width + 1) * (height + 1)))"

text \<open>The five statistics that the body of the second loop computes for a window.\<close>

record windowStats =
  meanX :: number
  meanY :: number
  varX :: number
  varY :: number
  covXY :: number

text \<open>The statistics of the window with top-left corner \<open>(wx, wy)\<close>, from the tables.\<close>

definition windowStatsAt :: "sats \<Rightarrow> nat \<Rightarrow> nat \<Rightarrow> nat \<Rightarrow> nat \<Rightarrow> windowStats" where
  "windowStatsAt s width ws wx wy =
     (let sw = width + 1;
          wsSq = Fin (of_nat (ws * ws));
          tl = wy * sw + wx;
          tr = wy * sw + (wx + ws);
          bl = (wy + ws) * sw + wx;
          br = (wy + ws) * sw + (wx + ws);
          sX = cell (satX s) br - cell (satX s) bl - cell (satX s) tr + cell (satX s) tl;
          sY = cell (satY s) br - cell (satY s) bl - cell (satY s) tr + cell (satY s) tl;
          mX = sX / wsSq;
          mY = sY / wsSq
      in \<lparr>meanX = mX, meanY = mY,
          varX = (cell (satX2 s) br - cell (satX2 s) bl - cell (satX2 s) tr + cell (satX2 s) tl) / wsSq - mX * mX,
          varY = (cell (satY2 s) br - cell (satY2 s) bl - cell (satY2 s) tr + cell (satY2 s) tl) / wsSq - mY * mY,
          covXY = (cell (satXY s) br - cell (satXY s) bl - cell (satXY s) tr + cell (satXY s) tl) / wsSq - mX * mY\<rparr>)"

text \<open>\<open>num\<close>, \<open>den\<close> and \<open>val = num / den\<close> of a window.\<close>

definition ssimNum :: "number \<Rightarrow> number \<Rightarrow> windowStats \<Rightarrow> number" where
  "ssimNum c1 c2 st = (Fin 2 * meanX st * meanY st + c1) * (Fin 2 * covXY st + c2)"

definition ssimDen :: "number \<Rightarrow> number \<Rightarrow> windowStats \<Rightarrow> number" where
  "ssimDen c1 c2 st =
     (meanX st * meanX st + meanY st * meanY st + c1) * (varX st + varY st + c2)"

definition ssimVal :: "number \<Rightarrow> number \<Rightarrow> windowStats \<Rightarrow> number" where
  "ssimVal c1 c2 st = ssimNum c1 c2 st / ssimDen c1 c2 st"

text \<open>\<open>count++; mssim = mssim + (val - mssim) / count\<close>, on the pair \<open>(mssim, count)\<close>.\<close>

definition accumulate :: "number \<Rightarrow> number \<times> nat \<Rightarrow> number \<times> nat" where
  "accumulate val acc =
     (let count = snd acc + 1
      in (fst acc + (val - fst acc) / Fin (of_nat count), count))"

text \<open>
  The whole function: the defaults, the constants, the guard on the window region, the
  tables, and the running mean over the windows, \<open>wy\<close> in the outer loop and \<open>wx\<close> in the
  inner one.
\<close>

definition ssimGrey :: "nat list \<Rightarrow> nat list \<Rightarrow> nat \<Rightarrow> nat \<Rightarrow> SsimGreyOptions option \<Rightarrow> number" where
  "ssimGrey img1 img2 width height options =
     (let ws = option_or options windowSize 11;
          L = dynamicRange (option_or options bitDepth 8);
          c1 = stability (option_or options k1 (1 / 100)) L;
          c2 = stability (option_or options k2 (3 / 100)) L;
          winW = int width - int ws + 1;
          winH = int height - int ws + 1
      in if winW \<le> 0 \<or> winH \<le> 0 then Fin 1
         else
           let s = buildSats img1 img2 width height
           in fst (fold (\<lambda>wy. fold (\<lambda>wx. accumulate (ssimVal c1 c2 (windowStatsAt s width ws wx wy)))
                                 [0..<nat winW])
                     [0..<nat winH] (Fin 0, 0)))"

section \<open>The program with rounding\<close>

text \<open>
  The same program with every arithmetic operation on numbers followed by a rounding
  \<open>rnd\<close> of its finite result, as the operations on doubles are: \<open>fadd\<close>, \<open>fsub\<close>, \<open>fmul\<close>
  and \<open>fdiv\<close> are the exact operation followed by \<open>rnd\<close>.  The rounding is a parameter, so
  that a statement about this model holds whatever the format and the rounding mode are;
  with the identity for \<open>rnd\<close> the model is the exact one above.  The samples, the literal
  \<open>2\<close>, the window count and the dynamic range are integers and are not rounded; rounding
  never overflows to an infinity.
\<close>

fun roundTo :: "(rat \<Rightarrow> rat) \<Rightarrow> number \<Rightarrow> number" where
  "roundTo rnd (Fin a) = Fin (rnd a)"
| "roundTo rnd a = a"

definition fadd :: "(rat \<Rightarrow> rat) \<Rightarrow> number \<Rightarrow> number \<Rightarrow> number" where
  "fadd rnd a b = roundTo rnd (a + b)"

definition fsub :: "(rat \<Rightarrow> rat) \<Rightarrow> number \<Rightarrow> number \<Rightarrow> number" where
  "fsub rnd a b = roundTo rnd (a - b)"

definition fmul :: "(rat \<Rightarrow> rat) \<Rightarrow> number \<Rightarrow> number \<Rightarrow> number" where
  "fmul rnd a b = roundTo rnd (a * b)"

definition fdiv :: "(rat \<Rightarrow> rat) \<Rightarrow> number \<Rightarrow> number \<Rightarrow> number" where
  "fdiv rnd a b = roundTo rnd (a / b)"

text \<open>
  \<open>k * L * (k * L)\<close>, the body of the first loop, the first loop, the statistics of a window,
  \<open>num\<close>, \<open>den\<close>, \<open>val\<close>, the update of the running mean and the whole function, each with the
  operations of the source in the source's order of evaluation.
\<close>

definition stabilityR :: "(rat \<Rightarrow> rat) \<Rightarrow> rat \<Rightarrow> int \<Rightarrow> number" where
  "stabilityR rnd k L =
     fmul rnd (fmul rnd (Fin k) (Fin (of_int L))) (fmul rnd (Fin k) (Fin (of_int L)))"

definition satStepR :: "(rat \<Rightarrow> rat) \<Rightarrow> nat list \<Rightarrow> nat list \<Rightarrow> nat \<Rightarrow> nat \<Rightarrow> nat \<Rightarrow> sats \<Rightarrow> sats" where
  "satStepR rnd img1 img2 width y x s =
     (let px = sample img1 (y * width + x);
          py = sample img2 (y * width + x);
          sw = width + 1;
          i = (y + 1) * sw + (x + 1);
          above = i - sw;
          left = i - 1;
          aboveLeft = above - 1
      in \<lparr>satX = (satX s)[i := fsub rnd (fadd rnd (fadd rnd px (cell (satX s) above)) (cell (satX s) left)) (cell (satX s) aboveLeft)],
          satY = (satY s)[i := fsub rnd (fadd rnd (fadd rnd py (cell (satY s) above)) (cell (satY s) left)) (cell (satY s) aboveLeft)],
          satX2 = (satX2 s)[i := fsub rnd (fadd rnd (fadd rnd (fmul rnd px px) (cell (satX2 s) above)) (cell (satX2 s) left)) (cell (satX2 s) aboveLeft)],
          satY2 = (satY2 s)[i := fsub rnd (fadd rnd (fadd rnd (fmul rnd py py) (cell (satY2 s) above)) (cell (satY2 s) left)) (cell (satY2 s) aboveLeft)],
          satXY = (satXY s)[i := fsub rnd (fadd rnd (fadd rnd (fmul rnd px py) (cell (satXY s) above)) (cell (satXY s) left)) (cell (satXY s) aboveLeft)]\<rparr>)"

definition buildSatsR :: "(rat \<Rightarrow> rat) \<Rightarrow> nat list \<Rightarrow> nat list \<Rightarrow> nat \<Rightarrow> nat \<Rightarrow> sats" where
  "buildSatsR rnd img1 img2 width height =
     fold (\<lambda>y. fold (\<lambda>x. satStepR rnd img1 img2 width y x) [0..<width]) [0..<height]
       (newSats ((width + 1) * (height + 1)))"

definition windowStatsAtR :: "(rat \<Rightarrow> rat) \<Rightarrow> sats \<Rightarrow> nat \<Rightarrow> nat \<Rightarrow> nat \<Rightarrow> nat \<Rightarrow> windowStats" where
  "windowStatsAtR rnd s width ws wx wy =
     (let sw = width + 1;
          wsSq = fmul rnd (Fin (of_nat ws)) (Fin (of_nat ws));
          tl = wy * sw + wx;
          tr = wy * sw + (wx + ws);
          bl = (wy + ws) * sw + wx;
          br = (wy + ws) * sw + (wx + ws);
          sX = fadd rnd (fsub rnd (fsub rnd (cell (satX s) br) (cell (satX s) bl)) (cell (satX s) tr)) (cell (satX s) tl);
          sY = fadd rnd (fsub rnd (fsub rnd (cell (satY s) br) (cell (satY s) bl)) (cell (satY s) tr)) (cell (satY s) tl);
          mX = fdiv rnd sX wsSq;
          mY = fdiv rnd sY wsSq
      in \<lparr>meanX = mX, meanY = mY,
          varX = fsub rnd (fdiv rnd (fadd rnd (fsub rnd (fsub rnd (cell (satX2 s) br) (cell (satX2 s) bl)) (cell (satX2 s) tr)) (cell (satX2 s) tl)) wsSq) (fmul rnd mX mX),
          varY = fsub rnd (fdiv rnd (fadd rnd (fsub rnd (fsub rnd (cell (satY2 s) br) (cell (satY2 s) bl)) (cell (satY2 s) tr)) (cell (satY2 s) tl)) wsSq) (fmul rnd mY mY),
          covXY = fsub rnd (fdiv rnd (fadd rnd (fsub rnd (fsub rnd (cell (satXY s) br) (cell (satXY s) bl)) (cell (satXY s) tr)) (cell (satXY s) tl)) wsSq) (fmul rnd mX mY)\<rparr>)"

definition ssimNumR :: "(rat \<Rightarrow> rat) \<Rightarrow> number \<Rightarrow> number \<Rightarrow> windowStats \<Rightarrow> number" where
  "ssimNumR rnd c1 c2 st =
     fmul rnd (fadd rnd (fmul rnd (fmul rnd (Fin 2) (meanX st)) (meanY st)) c1)
              (fadd rnd (fmul rnd (Fin 2) (covXY st)) c2)"

definition ssimDenR :: "(rat \<Rightarrow> rat) \<Rightarrow> number \<Rightarrow> number \<Rightarrow> windowStats \<Rightarrow> number" where
  "ssimDenR rnd c1 c2 st =
     fmul rnd (fadd rnd (fadd rnd (fmul rnd (meanX st) (meanX st)) (fmul rnd (meanY st) (meanY st))) c1)
              (fadd rnd (fadd rnd (varX st) (varY st)) c2)"

definition ssimValR :: "(rat \<Rightarrow> rat) \<Rightarrow> number \<Rightarrow> number \<Rightarrow> windowStats \<Rightarrow> number" where
  "ssimValR rnd c1 c2 st = fdiv rnd (ssimNumR rnd c1 c2 st) (ssimDenR rnd c1 c2 st)"

definition accumulateR :: "(rat \<Rightarrow> rat) \<Rightarrow> number \<Rightarrow> number \<times> nat \<Rightarrow> number \<times> nat" where
  "accumulateR rnd val acc =
     (let count = snd acc + 1
      in (fadd rnd (fst acc) (fdiv rnd (fsub rnd val (fst acc)) (Fin (of_nat count))), count))"

definition ssimGreyR :: "(rat \<Rightarrow> rat) \<Rightarrow> nat list \<Rightarrow> nat list \<Rightarrow> nat \<Rightarrow> nat \<Rightarrow> SsimGreyOptions option \<Rightarrow> number" where
  "ssimGreyR rnd img1 img2 width height options =
     (let ws = option_or options windowSize 11;
          L = dynamicRange (option_or options bitDepth 8);
          c1 = stabilityR rnd (option_or options k1 (1 / 100)) L;
          c2 = stabilityR rnd (option_or options k2 (3 / 100)) L;
          winW = int width - int ws + 1;
          winH = int height - int ws + 1
      in if winW \<le> 0 \<or> winH \<le> 0 then Fin 1
         else
           let s = buildSatsR rnd img1 img2 width height
           in fst (fold (\<lambda>wy. fold (\<lambda>wx. accumulateR rnd (ssimValR rnd c1 c2 (windowStatsAtR rnd s width ws wx wy)))
                                 [0..<nat winW])
                     [0..<nat winH] (Fin 0, 0)))"

text \<open>
  The one property of the rounding that symmetry needs: doubling a rounded value is exact.
  It holds for every rounding into a binary floating-point format that leaves the values of
  the format unchanged, \<open>binary64\<close> being the values with a 53-bit significand; only an
  overflow could break it, and the values doubled are means of samples.
\<close>

definition doublingExact :: "(rat \<Rightarrow> rat) \<Rightarrow> bool" where
  "doublingExact rnd \<longleftrightarrow> (\<forall>x. rnd (2 * rnd x) = 2 * rnd x)"

definition binary64 :: "rat set" where
  "binary64 = {x. \<exists>m n k. \<bar>m\<bar> < 2 ^ 53 \<and> x = of_int m * 2 ^ n / 2 ^ k}"

text \<open>
  \<open>roundFloat\<close> is a rounding to use in evaluations, a binary floating-point format in
  small: an 11-bit significand, rounding towards zero, and gradual underflow below \<open>1\<close>.
  A magnitude of at least \<open>1\<close> is rounded down to a multiple of \<open>2 ^ e / 1024\<close>, where
  \<open>2 ^ e\<close>, computed by \<open>pow2le\<close>, is the largest power of two that is at most the magnitude;
  a smaller one is rounded down to a multiple of \<open>1 / 1024\<close>.  \<open>representable\<close> holds of
  the magnitudes the format has.  Sums, differences, products and quotients of its values
  are all rounded by it: \<open>2048 + 1\<close> is \<open>2048\<close>.
\<close>

function pow2le :: "int \<Rightarrow> int" where
  "pow2le n = (if n < 2 then 1 else 2 * pow2le (n div 2))"
  by pat_completeness auto
termination
  by (relation "measure nat") auto

declare pow2le.simps [simp del]

definition roundMagnitude :: "rat \<Rightarrow> rat" where
  "roundMagnitude x =
     (if x < 1 then of_int \<lfloor>x * 1024\<rfloor> / 1024
      else (let ulp = of_int (pow2le \<lfloor>x\<rfloor>) / 1024 in of_int \<lfloor>x / ulp\<rfloor> * ulp))"

definition roundFloat :: "rat \<Rightarrow> rat" where
  "roundFloat x = (if x < 0 then - roundMagnitude (- x) else roundMagnitude x)"

definition representable :: "rat \<Rightarrow> bool" where
  "representable y \<longleftrightarrow>
     (0 \<le> y \<and> y < 1 \<and> (\<exists>m::int. y = of_int m / 1024))
     \<or> (\<exists>(k::nat) (m::int). y = of_int m * 2 ^ k / 1024 \<and> 2 ^ k \<le> y \<and> y < 2 * 2 ^ k)"

section \<open>Notions used in the statements\<close>

text \<open>
  The values that \<open>ssimGrey\<close> derives from its options and dimensions: the window size, the
  multipliers, the bit depth, the stability constants \<open>c1\<close> and \<open>c2\<close>, and the extents
  \<open>winW\<close> and \<open>winH\<close> of the region of window corners.
\<close>

definition windowSizeOf :: "SsimGreyOptions option \<Rightarrow> nat" where
  "windowSizeOf options = option_or options windowSize 11"

definition k1Of :: "SsimGreyOptions option \<Rightarrow> rat" where
  "k1Of options = option_or options k1 (1 / 100)"

definition k2Of :: "SsimGreyOptions option \<Rightarrow> rat" where
  "k2Of options = option_or options k2 (3 / 100)"

definition bitDepthOf :: "SsimGreyOptions option \<Rightarrow> nat" where
  "bitDepthOf options = option_or options bitDepth 8"

definition c1Of :: "SsimGreyOptions option \<Rightarrow> number" where
  "c1Of options = stability (k1Of options) (dynamicRange (bitDepthOf options))"

definition c2Of :: "SsimGreyOptions option \<Rightarrow> number" where
  "c2Of options = stability (k2Of options) (dynamicRange (bitDepthOf options))"

definition winWOf :: "nat \<Rightarrow> SsimGreyOptions option \<Rightarrow> int" where
  "winWOf width options = int width - int (windowSizeOf options) + 1"

definition winHOf :: "nat \<Rightarrow> SsimGreyOptions option \<Rightarrow> int" where
  "winHOf height options = int height - int (windowSizeOf options) + 1"

text \<open>
  The statistics and the value \<open>val\<close> that the second loop computes at the window with
  top-left corner \<open>p = (wx, wy)\<close>.
\<close>

definition statsAt :: "nat list \<Rightarrow> nat list \<Rightarrow> nat \<Rightarrow> nat \<Rightarrow> SsimGreyOptions option \<Rightarrow> nat \<times> nat \<Rightarrow> windowStats" where
  "statsAt img1 img2 width height options p =
     windowStatsAt (buildSats img1 img2 width height) width (windowSizeOf options) (fst p) (snd p)"

definition valAt :: "nat list \<Rightarrow> nat list \<Rightarrow> nat \<Rightarrow> nat \<Rightarrow> SsimGreyOptions option \<Rightarrow> nat \<times> nat \<Rightarrow> number" where
  "valAt img1 img2 width height options p =
     ssimVal (c1Of options) (c2Of options) (statsAt img1 img2 width height options p)"

text \<open>
  The window corners \<open>(wx, wy)\<close> in row-major order, \<open>wy\<close> outer and \<open>wx\<close> inner, and the
  window values in that order.
\<close>

definition windowOrder :: "nat \<Rightarrow> nat \<Rightarrow> (nat \<times> nat) list" where
  "windowOrder winW winH = concat (map (\<lambda>wy. map (\<lambda>wx. (wx, wy)) [0..<winW]) [0..<winH])"

definition windowVals :: "nat list \<Rightarrow> nat list \<Rightarrow> nat \<Rightarrow> nat \<Rightarrow> SsimGreyOptions option \<Rightarrow> number list" where
  "windowVals img1 img2 width height options =
     map (valAt img1 img2 width height options)
       (windowOrder (nat (winWOf width options)) (nat (winHOf height options)))"

text \<open>
  The input contract: both buffers hold \<open>width * height\<close> samples.  The five tables that
  \<open>ssimGrey\<close> builds.
\<close>

definition validImages :: "nat list \<Rightarrow> nat list \<Rightarrow> nat \<Rightarrow> nat \<Rightarrow> bool" where
  "validImages img1 img2 width height \<longleftrightarrow>
     length img1 = width * height \<and> length img2 = width * height"

definition tablesOf :: "sats \<Rightarrow> number list list" where
  "tablesOf s = [satX s, satY s, satX2 s, satY2 s, satXY s]"

text \<open>
  The statistics of a window computed directly from its raw pixels: the sum of a per-pixel
  quantity \<open>g\<close> over the \<open>ws * ws\<close> pixels of the window at \<open>(wx, wy)\<close>, the mean, and the
  population covariance and variance, that is the mean of the products of the deviations
  from the means.
\<close>

definition pixelAt :: "nat list \<Rightarrow> nat \<Rightarrow> nat \<Rightarrow> nat \<Rightarrow> rat" where
  "pixelAt img width x y = of_nat (img ! (y * width + x))"

definition windowSum :: "(nat \<Rightarrow> nat \<Rightarrow> rat) \<Rightarrow> nat \<Rightarrow> nat \<Rightarrow> nat \<Rightarrow> rat" where
  "windowSum g ws wx wy = (\<Sum>y = wy..<wy + ws. \<Sum>x = wx..<wx + ws. g x y)"

definition directMean :: "(nat \<Rightarrow> nat \<Rightarrow> rat) \<Rightarrow> nat \<Rightarrow> nat \<Rightarrow> nat \<Rightarrow> rat" where
  "directMean g ws wx wy = windowSum g ws wx wy / of_nat (ws * ws)"

definition directCov :: "(nat \<Rightarrow> nat \<Rightarrow> rat) \<Rightarrow> (nat \<Rightarrow> nat \<Rightarrow> rat) \<Rightarrow> nat \<Rightarrow> nat \<Rightarrow> nat \<Rightarrow> rat" where
  "directCov g h ws wx wy =
     windowSum (\<lambda>x y. (g x y - directMean g ws wx wy) * (h x y - directMean h ws wx wy)) ws wx wy
       / of_nat (ws * ws)"

definition directVar :: "(nat \<Rightarrow> nat \<Rightarrow> rat) \<Rightarrow> nat \<Rightarrow> nat \<Rightarrow> nat \<Rightarrow> rat" where
  "directVar g ws wx wy =
     windowSum (\<lambda>x y. (g x y - directMean g ws wx wy) ^ 2) ws wx wy / of_nat (ws * ws)"

text \<open>
  The reference against which the running mean is compared: sum the window values, then
  divide by their number.
\<close>

definition referenceMean :: "number list \<Rightarrow> number" where
  "referenceMean vals = fold (\<lambda>val sum. sum + val) vals (Fin 0) / Fin (of_nat (length vals))"

text \<open>
  Positive multipliers with a bit depth that is not a multiple of 32: the configurations
  in which \<open>c1\<close> and \<open>c2\<close> are positive.
\<close>

definition positiveConstants :: "SsimGreyOptions option \<Rightarrow> bool" where
  "positiveConstants options \<longleftrightarrow>
     0 < k1Of options \<and> 0 < k2Of options \<and> bitDepthOf options mod 32 \<noteq> 0"

text \<open>
  Devices of the proofs: exchanging the roles of the two images; the sum of a quantity
  over the rectangle from \<open>(0, 0)\<close> to \<open>(X - 1, Y - 1)\<close>; the construction of one table, its
  loop invariant and what it establishes; numerator and denominator over the rationals.
\<close>

definition swapSats :: "sats \<Rightarrow> sats" where
  "swapSats s = \<lparr>satX = satY s, satY = satX s, satX2 = satY2 s, satY2 = satX2 s, satXY = satXY s\<rparr>"

definition swapStats :: "windowStats \<Rightarrow> windowStats" where
  "swapStats st = \<lparr>meanX = meanY st, meanY = meanX st, varX = varY st, varY = varX st, covXY = covXY st\<rparr>"

definition rectSum :: "(nat \<Rightarrow> nat \<Rightarrow> rat) \<Rightarrow> nat \<Rightarrow> nat \<Rightarrow> rat" where
  "rectSum g X Y = (\<Sum>y<Y. \<Sum>x<X. g x y)"

definition tableStep :: "(nat \<Rightarrow> nat \<Rightarrow> number) \<Rightarrow> nat \<Rightarrow> nat \<Rightarrow> nat \<Rightarrow> number list \<Rightarrow> number list" where
  "tableStep f width y x t =
     t[(y + 1) * (width + 1) + (x + 1) :=
         f x y + cell t (y * (width + 1) + (x + 1)) + cell t ((y + 1) * (width + 1) + x)
           - cell t (y * (width + 1) + x)]"

definition buildTable :: "(nat \<Rightarrow> nat \<Rightarrow> number) \<Rightarrow> nat \<Rightarrow> nat \<Rightarrow> number list" where
  "buildTable f width height =
     fold (\<lambda>y. fold (\<lambda>x. tableStep f width y x) [0..<width]) [0..<height]
       (replicate ((width + 1) * (height + 1)) (Fin 0))"

definition tableInv :: "(nat \<Rightarrow> nat \<Rightarrow> rat) \<Rightarrow> nat \<Rightarrow> nat \<Rightarrow> nat \<Rightarrow> nat \<Rightarrow> number list \<Rightarrow> bool" where
  "tableInv g width height y x t \<longleftrightarrow>
     length t = (width + 1) * (height + 1) \<and>
     (\<forall>Y \<le> height. \<forall>X \<le> width.
        t ! (Y * (width + 1) + X) =
          Fin (if Y \<le> y \<or> (Y = y + 1 \<and> X \<le> x) then rectSum g X Y else 0))"

definition goodTable :: "nat \<Rightarrow> nat \<Rightarrow> number list \<Rightarrow> bool" where
  "goodTable width height t \<longleftrightarrow>
     (\<exists>g. (\<forall>x y. 0 \<le> g x y) \<and> length t = (width + 1) * (height + 1) \<and>
          (\<forall>X Y. X \<le> width \<longrightarrow> Y \<le> height \<longrightarrow> cell t (Y * (width + 1) + X) = Fin (rectSum g X Y)))"

definition ratNum :: "rat \<Rightarrow> rat \<Rightarrow> rat \<Rightarrow> rat \<Rightarrow> rat \<Rightarrow> rat" where
  "ratNum a b mx my cxy = (2 * mx * my + a) * (2 * cxy + b)"

definition ratDen :: "rat \<Rightarrow> rat \<Rightarrow> rat \<Rightarrow> rat \<Rightarrow> rat \<Rightarrow> rat \<Rightarrow> rat" where
  "ratDen a b mx my vx vy = (mx * mx + my * my + a) * (vx + vy + b)"

section \<open>Arithmetic of numbers\<close>

lemma add_NaN_right [simp]: "a + NaN = NaN" for a :: number
  by (cases a) simp_all

lemma minus_NaN_left [simp]: "NaN - a = NaN" for a :: number
  by (simp add: minus_number_def)

lemma minus_NaN_right [simp]: "a - NaN = NaN" for a :: number
  by (simp add: minus_number_def)

lemma mult_NaN_right [simp]: "a * NaN = NaN" for a :: number
  by (cases a) simp_all

lemma divide_NaN_right [simp]: "a / NaN = NaN" for a :: number
  by (cases a) simp_all

lemma Fin_minus [simp]: "Fin a - Fin b = Fin (a - b)"
  by (simp add: minus_number_def)

lemma Fin_divide: "b \<noteq> 0 \<Longrightarrow> Fin a / Fin b = Fin (a / b)"
  by simp

lemma add_commute_number: "a + b = b + a" for a b :: number
  by (cases a; cases b) simp_all

lemma mult_commute_number: "a * b = b * a" for a b :: number
  by (cases a; cases b) simp_all

lemma twice_product_commute: "Fin 2 * a * b = Fin 2 * b * a" for a b :: number
  by (cases a; cases b) (simp_all add: signed_inf_def)

lemma zero_window_sum: "(a - a - a + a) / Fin 0 = NaN" for a :: number
  by (cases a) (simp_all add: minus_number_def)

lemma isFinite_iff: "isFinite v \<longleftrightarrow> (\<exists>r. v = Fin r)"
  by (cases v) simp_all

section \<open>Dynamic range and stability constants\<close>

lemma dynamicRange_small: "depth < 31 \<Longrightarrow> dynamicRange depth = 2 ^ depth - 1"
proof -
  assume d: "depth < 31"
  have "(2::int) ^ depth < 2 ^ 31"
    using d by (intro power_strict_increasing) simp_all
  moreover have "- (2 ^ 31) \<le> (2::int) ^ depth"
    by (rule order_trans [of _ 0]) simp_all
  ultimately have "signed_take_bit 31 ((2::int) ^ depth) = 2 ^ depth"
    by (intro signed_take_bit_int_eq_self)
  moreover have "sint (word_of_int (2 ^ depth) :: 32 word) = signed_take_bit (LENGTH(32) - 1) (2 ^ depth)"
    by (rule sint_sbintrunc')
  moreover have "push_bit depth (1 :: 32 word) = word_of_int (2 ^ depth)"
    by (simp add: push_bit_of_1)
  ultimately have "sint (push_bit depth (1 :: 32 word)) = 2 ^ depth"
    by (simp only: len_bit0 len_num1) simp
  then show ?thesis using d by (simp add: dynamicRange_def)
qed

lemma dynamicRange_nonzero: "depth mod 32 \<noteq> 0 \<Longrightarrow> dynamicRange depth \<noteq> 0"
proof -
  assume d: "depth mod 32 \<noteq> 0"
  show ?thesis
  proof (cases "depth mod 32 < 31")
    case True
    have "(1::int) < 2 ^ (depth mod 32)"
      using d by (intro one_less_power) simp_all
    moreover have "dynamicRange (depth mod 32) = 2 ^ (depth mod 32) - 1"
      using True by (rule dynamicRange_small)
    ultimately show ?thesis by (simp add: dynamicRange_def)
  next
    case False
    then have "depth mod 32 = 31"
      using mod_less_divisor [of 32 depth] by linarith
    then show ?thesis by (simp add: dynamicRange_def)
  qed
qed

lemma stability_Fin: "stability k L = Fin ((k * of_int L) * (k * of_int L))"
  by (simp add: stability_def)

lemma constants_Fin:
  "c1Of options = Fin ((k1Of options * of_int (dynamicRange (bitDepthOf options))) *
                       (k1Of options * of_int (dynamicRange (bitDepthOf options))))"
  "c2Of options = Fin ((k2Of options * of_int (dynamicRange (bitDepthOf options))) *
                       (k2Of options * of_int (dynamicRange (bitDepthOf options))))"
  by (simp_all add: c1Of_def c2Of_def stability_Fin)

lemma constants_exist:
  "\<exists>a b. c1Of options = Fin a \<and> c2Of options = Fin b \<and> 0 \<le> a \<and> 0 \<le> b
         \<and> (positiveConstants options \<longrightarrow> 0 < a \<and> 0 < b)"
proof -
  let ?L = "of_int (dynamicRange (bitDepthOf options)) :: rat"
  let ?a = "(k1Of options * ?L) * (k1Of options * ?L)"
  let ?b = "(k2Of options * ?L) * (k2Of options * ?L)"
  have "0 < ?a \<and> 0 < ?b" if "positiveConstants options"
  proof -
    have "?L \<noteq> 0" using that dynamicRange_nonzero by (simp add: positiveConstants_def)
    then have "k1Of options * ?L \<noteq> 0" "k2Of options * ?L \<noteq> 0"
      using that by (simp_all add: positiveConstants_def)
    then show ?thesis
      using zero_less_power2 [of "k1Of options * ?L"] zero_less_power2 [of "k2Of options * ?L"]
      by (simp only: power2_eq_square) simp
  qed
  moreover have "0 \<le> ?a" "0 \<le> ?b" by simp_all
  ultimately show ?thesis
    using constants_Fin [of options] by blast
qed

text \<open>
  With positive multipliers the constants are positive exactly when the bit depth is not a
  multiple of 32; the default options are such a configuration.
\<close>

lemma constants_positive_iff:
  assumes "0 < k1Of options" "0 < k2Of options"
  shows "Fin 0 < c1Of options \<and> Fin 0 < c2Of options \<longleftrightarrow> bitDepthOf options mod 32 \<noteq> 0"
proof (cases "bitDepthOf options mod 32 = 0")
  case True
  then have "dynamicRange (bitDepthOf options) = 0"
    by (simp add: dynamicRange_def)
  then show ?thesis
    using True by (simp add: constants_Fin)
next
  case False
  then have "positiveConstants options"
    using assms by (simp add: positiveConstants_def)
  with constants_exist [of options] show ?thesis
    using False by auto
qed

lemma positiveConstants_default: "positiveConstants None"
  by (simp add: positiveConstants_def k1Of_def k2Of_def bitDepthOf_def option_or_def)

text \<open>
  The constants are \<open>c1 = (k1 * L)\<^sup>2\<close> and \<open>c2 = (k2 * L)\<^sup>2\<close> for the \<open>L\<close> that the program
  computes, and \<open>L = 2 ^ bitDepth - 1\<close> for every bit depth up to 30.
\<close>

lemma constants_up_to_30:
  assumes "bitDepthOf options < 31"
  shows "dynamicRange (bitDepthOf options) = 2 ^ bitDepthOf options - 1
       \<and> c1Of options = Fin ((k1Of options * of_int (2 ^ bitDepthOf options - 1)) ^ 2)
       \<and> c2Of options = Fin ((k2Of options * of_int (2 ^ bitDepthOf options - 1)) ^ 2)"
  using dynamicRange_small [OF assms]
  by (simp only: constants_Fin power2_eq_square)

text \<open>
  C8.  The claim is that \<open>L = 2 ^ bitDepth - 1\<close> for every positive bit depth.  The program
  computes \<open>(1 << bitDepth) - 1\<close>, where the shift is a 32-bit operation: at \<open>bitDepth = 32\<close>
  it gives \<open>L = 0\<close> instead of \<open>4294967295\<close>, hence \<open>c1 = c2 = 0\<close>, and at \<open>bitDepth = 31\<close>
  it gives \<open>L = - 2147483649\<close> instead of \<open>2147483647\<close>.
\<close>

theorem dynamicRange_at_32:
  "dynamicRange 32 = 0 \<and> dynamicRange 32 \<noteq> 2 ^ 32 - 1
   \<and> dynamicRange 31 = - 2147483649 \<and> dynamicRange 31 \<noteq> 2 ^ 31 - 1
   \<and> c1Of (Some \<lparr>windowSize = None, k1 = Some (1 / 100), k2 = Some (3 / 100), bitDepth = Some 32\<rparr>) = Fin 0
   \<and> c2Of (Some \<lparr>windowSize = None, k1 = Some (1 / 100), k2 = Some (3 / 100), bitDepth = Some 32\<rparr>) = Fin 0"
  by (simp add: dynamicRange_def c1Of_def c2Of_def k1Of_def k2Of_def bitDepthOf_def stability_def option_or_def)

section \<open>The second loop as a fold over the windows in row-major order\<close>

lemma fold_rows:
  "fold (\<lambda>wy. fold (\<lambda>wx. g wx wy) xs) ys acc =
   fold (\<lambda>p. g (fst p) (snd p)) (concat (map (\<lambda>wy. map (\<lambda>wx. (wx, wy)) xs) ys)) acc"
  by (induction ys arbitrary: acc) (simp_all add: fold_map comp_def)

lemma ssimGrey_unfold:
  "ssimGrey img1 img2 width height options =
     (if int width - int (windowSizeOf options) + 1 \<le> 0 \<or> int height - int (windowSizeOf options) + 1 \<le> 0
      then Fin 1
      else fst (fold accumulate
                  (map (valAt img1 img2 width height options)
                     (windowOrder (nat (int width - int (windowSizeOf options) + 1))
                                  (nat (int height - int (windowSizeOf options) + 1))))
                  (Fin 0, 0)))"
  by (simp add: ssimGrey_def Let_def fold_rows fold_map comp_def windowOrder_def valAt_def statsAt_def
      c1Of_def c2Of_def k1Of_def k2Of_def bitDepthOf_def windowSizeOf_def)

lemma ssimGrey_windowVals:
  "ssimGrey img1 img2 width height options =
     (if winWOf width options \<le> 0 \<or> winHOf height options \<le> 0 then Fin 1
      else fst (fold accumulate (windowVals img1 img2 width height options) (Fin 0, 0)))"
  by (simp add: ssimGrey_unfold windowVals_def winWOf_def winHOf_def)

lemma windowOrder_nonempty: "0 < winW \<Longrightarrow> 0 < winH \<Longrightarrow> windowOrder winW winH \<noteq> []"
  by (auto simp: windowOrder_def)

lemma length_windowOrder: "length (windowOrder winW winH) = winW * winH"
  by (induction winH) (simp_all add: windowOrder_def)

lemma set_windowOrder: "set (windowOrder winW winH) = {0..<winW} \<times> {0..<winH}"
  by (auto simp: windowOrder_def)

lemma windowVals_nonempty:
  "0 < winWOf width options \<Longrightarrow> 0 < winHOf height options \<Longrightarrow> windowVals img1 img2 width height options \<noteq> []"
  by (simp add: windowVals_def windowOrder_nonempty)

lemma window_inside:
  assumes "p \<in> set (windowOrder (nat (int width - int ws + 1)) (nat (int height - int ws + 1)))"
  shows "fst p + ws \<le> width" "snd p + ws \<le> height"
  using assms by (auto simp: set_windowOrder)

lemma windowVals_elem:
  assumes "v \<in> set (windowVals img1 img2 width height options)"
  obtains wx wy where "v = valAt img1 img2 width height options (wx, wy)"
    and "wx + windowSizeOf options \<le> width" and "wy + windowSizeOf options \<le> height"
proof -
  from assms obtain p where p: "v = valAt img1 img2 width height options p"
    and mem: "p \<in> set (windowOrder (nat (int width - int (windowSizeOf options) + 1))
                              (nat (int height - int (windowSizeOf options) + 1)))"
    by (auto simp: windowVals_def winWOf_def winHOf_def)
  show thesis
    using that [of "fst p" "snd p"] p window_inside [OF mem] by simp
qed

section \<open>The degenerate window\<close>

text \<open>
  C4.  When \<open>winW = width - windowSize + 1\<close> or \<open>winH = height - windowSize + 1\<close> is not
  positive, \<open>ssimGrey\<close> returns 1, whatever the pixels are; the guard precedes the
  construction of the tables.
\<close>

theorem degenerate_window_returns_one:
  assumes "winWOf width options \<le> 0 \<or> winHOf height options \<le> 0"
  shows "ssimGrey img1 img2 width height options = Fin 1"
  using assms by (simp add: ssimGrey_windowVals)

theorem degenerate_window_returns_one_witness:
  "(winWOf 5 None \<le> 0 \<or> winHOf 5 None \<le> 0)
   \<and> winWOf 5 None = - 5
   \<and> ssimGrey (replicate 25 128) (replicate 25 128) 5 5 None = Fin 1"
proof -
  have w: "winWOf 5 None = - 5"
    by (simp add: winWOf_def windowSizeOf_def option_or_def)
  then have h: "winWOf 5 None \<le> 0 \<or> winHOf 5 None \<le> 0"
    by simp
  from w h degenerate_window_returns_one [OF h] show ?thesis by blast
qed

section \<open>Window size zero\<close>

lemma accumulate_NaN: "accumulate NaN acc = (NaN, snd acc + 1)"
  by (simp add: accumulate_def Let_def)

lemma fold_accumulate_from_NaN: "fst (fold accumulate vs (NaN, c)) = NaN"
  by (induction vs arbitrary: c) (simp_all add: accumulate_def Let_def)

lemma fold_accumulate_all_NaN:
  "vs \<noteq> [] \<Longrightarrow> \<forall>v \<in> set vs. v = NaN \<Longrightarrow> fst (fold accumulate vs acc) = NaN"
  by (cases vs) (simp_all add: accumulate_def Let_def fold_accumulate_from_NaN)

lemma fold_accumulate_with_NaN: "NaN \<in> set vs \<Longrightarrow> fst (fold accumulate vs acc) = NaN"
proof (induction vs arbitrary: acc)
  case Nil
  then show ?case by simp
next
  case (Cons v vs)
  show ?case
  proof (cases "v = NaN")
    case True
    then show ?thesis
      by (simp add: accumulate_NaN fold_accumulate_from_NaN)
  next
    case False
    with Cons.prems have "NaN \<in> set vs" by simp
    then show ?thesis by (simp add: Cons.IH)
  qed
qed

lemma stats_zero_window:
  "windowStatsAt s width 0 wx wy =
     \<lparr>meanX = NaN, meanY = NaN, varX = NaN, varY = NaN, covXY = NaN\<rparr>"
  by (simp add: windowStatsAt_def Let_def zero_window_sum)

lemma val_zero_window:
  "windowSizeOf options = 0 \<Longrightarrow> valAt img1 img2 width height options p = NaN"
  by (simp add: valAt_def statsAt_def stats_zero_window ssimVal_def ssimNum_def ssimDen_def)

text \<open>
  C10.  With \<open>windowSize = 0\<close> the guard does not stop the call (\<open>winW = width + 1\<close> and
  \<open>winH = height + 1\<close> are positive), every window sum is divided by \<open>wsSq = 0\<close>, so
  that every window mean and every window value is NaN, and the result is NaN.
\<close>

theorem zero_window_size_returns_NaN:
  assumes "windowSizeOf options = 0"
  shows "winWOf width options = int width + 1 \<and> 0 < winWOf width options
       \<and> winHOf height options = int height + 1 \<and> 0 < winHOf height options
       \<and> (\<forall>wx wy. meanX (statsAt img1 img2 width height options (wx, wy)) = NaN
                \<and> meanY (statsAt img1 img2 width height options (wx, wy)) = NaN
                \<and> valAt img1 img2 width height options (wx, wy) = NaN)
       \<and> ssimGrey img1 img2 width height options = NaN"
proof -
  have extents: "winWOf width options = int width + 1" "winHOf height options = int height + 1"
    using assms by (simp_all add: winWOf_def winHOf_def)
  have "windowOrder (nat (int width + 1)) (nat (int height + 1)) \<noteq> []"
    by (rule windowOrder_nonempty) simp_all
  then have "ssimGrey img1 img2 width height options = NaN"
    using assms by (simp add: ssimGrey_unfold fold_accumulate_all_NaN val_zero_window)
  then show ?thesis
    using assms extents by (simp add: val_zero_window statsAt_def stats_zero_window)
qed

theorem zero_window_size_returns_NaN_witness:
  "windowSizeOf (Some \<lparr>windowSize = Some 0, k1 = None, k2 = None, bitDepth = None\<rparr>) = 0
   \<and> ssimGrey [1, 2, 3, 4] [4, 3, 2, 1] 2 2
       (Some \<lparr>windowSize = Some 0, k1 = None, k2 = None, bitDepth = None\<rparr>) = NaN"
proof -
  have zero: "windowSizeOf (Some \<lparr>windowSize = Some 0, k1 = None, k2 = None, bitDepth = None\<rparr>) = 0"
    by (simp add: windowSizeOf_def option_or_def)
  from zero zero_window_size_returns_NaN [OF zero, of 2 2 "[1, 2, 3, 4]" "[4, 3, 2, 1]"]
  show ?thesis by blast
qed

section \<open>Symmetry\<close>

text \<open>
  With the identity for the rounding, the model with rounding is the exact one.
\<close>

lemma roundTo_id [simp]: "roundTo (\<lambda>x. x) a = a"
  by (cases a) simp_all

lemma exact_ops [simp]:
  "fadd (\<lambda>x. x) a b = a + b" "fsub (\<lambda>x. x) a b = a - b"
  "fmul (\<lambda>x. x) a b = a * b" "fdiv (\<lambda>x. x) a b = a / b"
  by (simp_all add: fadd_def fsub_def fmul_def fdiv_def)

lemma satStepR_exact: "satStepR (\<lambda>x. x) = satStep"
  by (intro ext) (simp add: satStepR_def satStep_def)

lemma buildSatsR_exact: "buildSatsR (\<lambda>x. x) = buildSats"
  by (intro ext) (simp add: buildSatsR_def buildSats_def satStepR_exact)

lemma windowStatsAtR_exact: "windowStatsAtR (\<lambda>x. x) = windowStatsAt"
  by (intro ext) (simp add: windowStatsAtR_def windowStatsAt_def)

lemma ssimValR_exact: "ssimValR (\<lambda>x. x) = ssimVal"
  by (intro ext) (simp add: ssimValR_def ssimVal_def ssimNumR_def ssimNum_def ssimDenR_def ssimDen_def)

lemma accumulateR_exact: "accumulateR (\<lambda>x. x) = accumulate"
  by (intro ext) (simp add: accumulateR_def accumulate_def)

lemma stabilityR_exact: "stabilityR (\<lambda>x. x) = stability"
  by (intro ext) (simp add: stabilityR_def stability_def)

lemma ssimGreyR_exact: "ssimGreyR (\<lambda>x. x) = ssimGrey"
  by (intro ext)
    (simp add: ssimGreyR_def ssimGrey_def Let_def buildSatsR_exact windowStatsAtR_exact ssimValR_exact
      accumulateR_exact stabilityR_exact)

text \<open>
  Roundings for which doubling is exact: the identity, and every rounding into \<open>binary64\<close>
  that leaves the values of \<open>binary64\<close> unchanged.
\<close>

lemma doublingExact_exact: "doublingExact (\<lambda>x. x)"
  by (simp add: doublingExact_def)

lemma binary64_double: "x \<in> binary64 \<Longrightarrow> 2 * x \<in> binary64"
proof -
  assume "x \<in> binary64"
  then obtain m :: int and n k :: nat where m: "\<bar>m\<bar> < 2 ^ 53" and x: "x = of_int m * 2 ^ n / 2 ^ k"
    unfolding binary64_def by blast
  have "2 * x = of_int m * 2 ^ Suc n / 2 ^ k"
    by (simp add: x)
  with m show ?thesis
    unfolding binary64_def by blast
qed

lemma doublingExact_binary64:
  assumes "\<And>x. rnd x \<in> binary64" and "\<And>y. y \<in> binary64 \<Longrightarrow> rnd y = y"
  shows "doublingExact rnd"
  unfolding doublingExact_def using assms binary64_double by blast

text \<open>
  \<open>pow2le n\<close> is the power of two with \<open>pow2le n \<le> n < 2 * pow2le n\<close>.
\<close>

lemma pow2le_bounds: "1 \<le> n \<Longrightarrow> pow2le n \<le> n \<and> n < 2 * pow2le n"
proof (induction n rule: pow2le.induct)
  case (1 n)
  show ?case
  proof (cases "n < 2")
    case True
    with "1.prems" show ?thesis by (simp add: pow2le.simps)
  next
    case False
    then have "1 \<le> n div 2" by simp
    with "1.IH" False have "pow2le (n div 2) \<le> n div 2 \<and> n div 2 < 2 * pow2le (n div 2)"
      by simp
    then show ?thesis
      using False by (subst (1 2) pow2le.simps) (simp, linarith)
  qed
qed

lemma pow2le_power: "\<exists>k. pow2le n = 2 ^ k"
proof (induction n rule: pow2le.induct)
  case (1 n)
  show ?case
  proof (cases "n < 2")
    case True
    then have "pow2le n = 2 ^ 0" by (simp add: pow2le.simps)
    then show ?thesis by blast
  next
    case False
    with "1.IH" obtain k where "pow2le (n div 2) = 2 ^ k" by blast
    then have "pow2le n = 2 ^ Suc k" using False by (subst pow2le.simps) simp
    then show ?thesis by blast
  qed
qed

lemma power_two_unique:
  fixes n :: int
  assumes "2 ^ a \<le> n" "n < 2 * 2 ^ a" "2 ^ b \<le> n" "n < 2 * 2 ^ b"
  shows "a = b"
proof -
  have "(2::int) ^ a < 2 ^ Suc b" "(2::int) ^ b < 2 ^ Suc a"
    using assms by simp_all
  then have "a < Suc b" "b < Suc a"
    by (simp_all del: power_Suc)
  then show ?thesis by simp
qed

lemma pow2le_eq:
  assumes "2 ^ k \<le> n" "n < 2 * 2 ^ k"
  shows "pow2le n = 2 ^ k"
proof -
  have "(1::int) \<le> 2 ^ k" by simp
  then have n: "1 \<le> n" using assms(1) by (rule order_trans)
  obtain j where j: "pow2le n = 2 ^ j" using pow2le_power by blast
  with pow2le_bounds [OF n] have "2 ^ j \<le> n" "n < 2 * 2 ^ j" by simp_all
  with assms have "j = k" by (intro power_two_unique [of j n k])
  with j show ?thesis by simp
qed

lemma floor_times_le:
  fixes x u :: rat
  assumes "0 < u"
  shows "of_int \<lfloor>x / u\<rfloor> * u \<le> x"
proof -
  have "of_int \<lfloor>x / u\<rfloor> \<le> x / u" by (rule of_int_floor_le)
  then show ?thesis using assms by (simp only: pos_le_divide_eq)
qed

lemma floor_times_ge:
  fixes x u :: rat
  assumes "0 < u" "of_int c * u \<le> x"
  shows "of_int c * u \<le> of_int \<lfloor>x / u\<rfloor> * u"
proof -
  have "of_int c \<le> x / u" using assms by (simp add: pos_le_divide_eq)
  then have "c \<le> \<lfloor>x / u\<rfloor>" by (simp add: le_floor_iff)
  then have "(of_int c :: rat) \<le> of_int \<lfloor>x / u\<rfloor>" by (simp only: of_int_le_iff)
  then show ?thesis using assms(1) by (simp only: mult_le_cancel_right_pos)
qed

text \<open>
  \<open>roundMagnitude\<close> delivers representable magnitudes, leaves them unchanged, and twice a
  representable magnitude is representable: doubling is exact under \<open>roundFloat\<close>.
\<close>

lemma representable_roundMagnitude:
  assumes "0 \<le> x"
  shows "representable (roundMagnitude x)"
proof (cases "x < 1")
  case True
  have "0 \<le> x * 1024" using assms by simp
  then have "(0::rat) \<le> of_int \<lfloor>x * 1024\<rfloor>" by simp
  moreover have "of_int \<lfloor>x * 1024\<rfloor> \<le> x * 1024" by (rule of_int_floor_le)
  ultimately have "0 \<le> of_int \<lfloor>x * 1024\<rfloor> / (1024::rat)" "of_int \<lfloor>x * 1024\<rfloor> / 1024 < (1::rat)"
    using True by simp_all
  then show ?thesis
    using True unfolding representable_def roundMagnitude_def by auto
next
  case False
  let ?n = "\<lfloor>x\<rfloor>"
  have x1: "1 \<le> x" using False by simp
  then have n1: "1 \<le> ?n" by (simp add: le_floor_iff)
  obtain k where k: "pow2le ?n = 2 ^ k" using pow2le_power by blast
  from pow2le_bounds [OF n1] k have kn: "2 ^ k \<le> ?n" "?n < 2 * 2 ^ k" by simp_all
  have nx: "of_int ?n \<le> x" "x < of_int ?n + 1"
    using floor_correct [of x] by simp_all
  have lo: "(2::rat) ^ k \<le> x"
  proof -
    have "(2::rat) ^ k = of_int (2 ^ k)" by simp
    also have "\<dots> \<le> of_int ?n" using kn(1) by (simp only: of_int_le_iff)
    also have "\<dots> \<le> x" by (rule nx(1))
    finally show ?thesis .
  qed
  have hi: "x < 2 * (2::rat) ^ k"
  proof -
    have "?n + 1 \<le> 2 * 2 ^ k" using kn(2) by simp
    then have "(of_int (?n + 1) :: rat) \<le> of_int (2 * 2 ^ k)" by (simp only: of_int_le_iff)
    then have "of_int ?n + 1 \<le> 2 * (2::rat) ^ k" by simp
    with nx(2) show ?thesis by (rule less_le_trans)
  qed
  define u :: rat where "u = 2 ^ k / 1024"
  define m where "m = \<lfloor>x / u\<rfloor>"
  have u: "0 < u" and ku: "2 ^ k = of_int 1024 * u"
    by (simp_all add: u_def)
  have y: "roundMagnitude x = of_int m * u"
    using False by (simp add: roundMagnitude_def k u_def m_def)
  have "of_int 1024 * u \<le> of_int m * u"
    unfolding m_def using u lo [unfolded ku] by (rule floor_times_ge)
  then have ylo: "2 ^ k \<le> of_int m * u"
    by (simp only: ku)
  have "of_int m * u \<le> x"
    unfolding m_def using u by (rule floor_times_le)
  then have yhi: "of_int m * u < 2 * 2 ^ k"
    using hi by (rule le_less_trans)
  have eq: "roundMagnitude x = of_int m * 2 ^ k / 1024"
    by (simp add: y u_def)
  have "2 ^ k \<le> roundMagnitude x" "roundMagnitude x < 2 * 2 ^ k"
    using ylo yhi by (simp_all only: y)
  with eq show ?thesis
    unfolding representable_def by blast
qed

lemma representable_nonneg: "representable y \<Longrightarrow> 0 \<le> y"
proof -
  assume "representable y"
  then consider "0 \<le> y" | k :: nat where "2 ^ k \<le> y"
    unfolding representable_def by blast
  then show ?thesis
  proof cases
    case 1
    then show ?thesis .
  next
    case 2
    have "(0::rat) \<le> 2 ^ k" by simp
    then show ?thesis using 2 by (rule order_trans)
  qed
qed

lemma roundMagnitude_representable:
  assumes "representable y"
  shows "roundMagnitude y = y"
proof -
  from assms consider
    (small) m :: int where "y < 1" "y = of_int m / 1024"
  | (normal) k :: nat and m :: int where "y = of_int m * 2 ^ k / 1024" "2 ^ k \<le> y" "y < 2 * 2 ^ k"
    unfolding representable_def by blast
  then show ?thesis
  proof cases
    case small
    then show ?thesis by (simp add: roundMagnitude_def)
  next
    case normal
    have y1: "\<not> y < 1"
    proof -
      have "(1::rat) \<le> 2 ^ k" by simp
      then have "1 \<le> y" using normal(2) by (rule order_trans)
      then show ?thesis by simp
    qed
    have "(2::rat) ^ k = of_int (2 ^ k)" by simp
    then have "of_int (2 ^ k) \<le> y" using normal(2) by simp
    then have lo: "2 ^ k \<le> \<lfloor>y\<rfloor>" by (simp only: le_floor_iff)
    have "y < of_int (2 * 2 ^ k)" using normal(3) by simp
    then have hi: "\<lfloor>y\<rfloor> < 2 * 2 ^ k" by (simp only: floor_less_iff)
    have p: "pow2le \<lfloor>y\<rfloor> = 2 ^ k"
      using lo hi by (rule pow2le_eq)
    define u :: rat where "u = 2 ^ k / 1024"
    have u: "u \<noteq> 0" by (simp add: u_def)
    have yu: "y = of_int m * u" by (simp add: normal(1) u_def)
    have "roundMagnitude y = of_int \<lfloor>y / u\<rfloor> * u"
      using y1 by (simp add: roundMagnitude_def p u_def)
    also have "y / u = of_int m" using u by (simp add: yu)
    also have "of_int \<lfloor>of_int m :: rat\<rfloor> * u = y" by (simp add: yu)
    finally show ?thesis .
  qed
qed

lemma representable_double:
  assumes "representable y"
  shows "representable (2 * y)"
proof -
  from assms consider
    (small) m :: int where "0 \<le> y" "y < 1" "y = of_int m / 1024"
  | (normal) k :: nat and m :: int where "y = of_int m * 2 ^ k / 1024" "2 ^ k \<le> y" "y < 2 * 2 ^ k"
    unfolding representable_def by blast
  then show ?thesis
  proof cases
    case small
    have eq: "2 * y = of_int (2 * m) / 1024" by (simp add: small(3))
    show ?thesis
    proof (cases "2 * y < 1")
      case True
      then show ?thesis
        unfolding representable_def using eq small(1) by (intro disjI1 conjI exI [of _ "2 * m"]) simp_all
    next
      case False
      have "2 * y = of_int (2 * m) * 2 ^ 0 / 1024" by (simp add: small(3))
      moreover have "(2::rat) ^ 0 \<le> 2 * y" using False by simp
      moreover have "2 * y < 2 * 2 ^ 0" using small(2) by simp
      ultimately show ?thesis
        unfolding representable_def by blast
    qed
  next
    case normal
    have "2 * y = of_int m * 2 ^ Suc k / 1024" by (simp add: normal(1))
    moreover have "2 ^ Suc k \<le> 2 * y" using normal(2) by simp
    moreover have "2 * y < 2 * 2 ^ Suc k" using normal(3) by simp
    ultimately show ?thesis
      unfolding representable_def by blast
  qed
qed

lemma roundMagnitude_double:
  assumes "0 \<le> x"
  shows "roundMagnitude (2 * roundMagnitude x) = 2 * roundMagnitude x"
  by (rule roundMagnitude_representable, rule representable_double, rule representable_roundMagnitude,
      rule assms)

lemma roundMagnitude_nonneg: "0 \<le> x \<Longrightarrow> 0 \<le> roundMagnitude x"
  by (rule representable_nonneg, rule representable_roundMagnitude)

lemma doublingExact_roundFloat: "doublingExact roundFloat"
  unfolding doublingExact_def
proof
  fix x :: rat
  show "roundFloat (2 * roundFloat x) = 2 * roundFloat x"
  proof (cases "x < 0")
    case neg: True
    then have x: "0 \<le> - x" by simp
    have r: "roundFloat x = - roundMagnitude (- x)" using neg by (simp add: roundFloat_def)
    show ?thesis
    proof (cases "roundMagnitude (- x) = 0")
      case True
      then have "roundFloat x = 0" using r by simp
      moreover have "roundFloat 0 = 0" by (simp add: roundFloat_def roundMagnitude_def)
      ultimately show ?thesis by simp
    next
      case False
      with roundMagnitude_nonneg [OF x] have "0 < roundMagnitude (- x)" by simp
      then show ?thesis
        using roundMagnitude_double [OF x] neg by (simp add: r roundFloat_def)
    qed
  next
    case False
    then have x: "0 \<le> x" by simp
    have r: "roundFloat x = roundMagnitude x" using False by (simp add: roundFloat_def)
    have "\<not> 2 * roundMagnitude x < 0" using roundMagnitude_nonneg [OF x] by simp
    then show ?thesis
      using roundMagnitude_double [OF x] False by (simp add: r roundFloat_def)
  qed
qed

text \<open>
  Under \<open>roundFloat\<close> the order of the additions matters, as it does for doubles: of the
  values \<open>2048\<close>, \<open>1\<close> and \<open>1\<close> of the format, \<open>(2048 + 1) + 1\<close> is \<open>2048\<close> and
  \<open>(1 + 1) + 2048\<close> is \<open>2050\<close>.  So a sum of three terms is not symmetric in its outer
  terms, and the symmetry of the program rests on the order in which it adds: in \<open>den\<close> the
  two squares first, the two variances first.
\<close>

lemma rounded_addition_not_associative:
  "roundFloat 2048 = 2048" "roundFloat 1 = 1"
  "fadd roundFloat (fadd roundFloat (Fin 2048) (Fin 1)) (Fin 1) = Fin 2048"
  "fadd roundFloat (fadd roundFloat (Fin 1) (Fin 1)) (Fin 2048) = Fin 2050"
  by code_simp+

text \<open>
  Rounded addition and multiplication are commutative, and \<open>2 * a * b\<close>, evaluated as
  \<open>(2 * a) * b\<close>, equals \<open>2 * b * a\<close> for rounded \<open>a\<close> and \<open>b\<close> when doubling is exact.  Exchanging
  the images exchanges the X and Y tables and the X and Y statistics.
\<close>

lemma fadd_commute: "fadd rnd a b = fadd rnd b a"
  by (simp add: fadd_def add_commute_number [of a b])

lemma fmul_commute: "fmul rnd a b = fmul rnd b a"
  by (simp add: fmul_def mult_commute_number [of a b])

lemma twice_product_rounded:
  assumes "doublingExact rnd"
  shows "fmul rnd (fmul rnd (Fin 2) (roundTo rnd a)) (roundTo rnd b)
       = fmul rnd (fmul rnd (Fin 2) (roundTo rnd b)) (roundTo rnd a)"
proof -
  have dbl: "rnd (2 * rnd x) = 2 * rnd x" for x
    using assms by (simp add: doublingExact_def)
  have left: "fmul rnd (Fin 2) (roundTo rnd c) = Fin 2 * roundTo rnd c" for c
    by (cases c) (simp_all add: fmul_def dbl signed_inf_def)
  have "Fin 2 * roundTo rnd a * roundTo rnd b = Fin 2 * roundTo rnd b * roundTo rnd a"
    by (rule twice_product_commute)
  then have "fmul rnd (Fin 2 * roundTo rnd a) (roundTo rnd b)
      = fmul rnd (Fin 2 * roundTo rnd b) (roundTo rnd a)"
    by (simp add: fmul_def)
  then show ?thesis
    by (simp only: left)
qed

lemma newSats_swap: "swapSats (newSats n) = newSats n"
  by (simp add: swapSats_def newSats_def)

lemma satStepR_swap:
  "satStepR rnd img2 img1 width y x (swapSats s) = swapSats (satStepR rnd img1 img2 width y x s)"
  by (simp add: satStepR_def Let_def swapSats_def
      fmul_commute [of rnd "sample img2 (y * width + x)" "sample img1 (y * width + x)"])

lemma fold_satStepR_swap:
  "fold (\<lambda>x. satStepR rnd img2 img1 width y x) xs (swapSats s) =
   swapSats (fold (\<lambda>x. satStepR rnd img1 img2 width y x) xs s)"
  by (induction xs arbitrary: s) (simp_all add: satStepR_swap)

lemma fold_rows_satStepR_swap:
  "fold (\<lambda>y. fold (\<lambda>x. satStepR rnd img2 img1 width y x) xs) ys (swapSats s) =
   swapSats (fold (\<lambda>y. fold (\<lambda>x. satStepR rnd img1 img2 width y x) xs) ys s)"
  by (induction ys arbitrary: s) (simp_all add: fold_satStepR_swap)

lemma buildSatsR_swap:
  "buildSatsR rnd img2 img1 width height = swapSats (buildSatsR rnd img1 img2 width height)"
  unfolding buildSatsR_def
  by (subst newSats_swap [symmetric]) (rule fold_rows_satStepR_swap)

lemma windowStatsAtR_swap:
  "windowStatsAtR rnd (swapSats s) width ws wx wy = swapStats (windowStatsAtR rnd s width ws wx wy)"
  by (simp add: windowStatsAtR_def Let_def swapSats_def swapStats_def fmul_commute)

lemma windowStatsAtR_means:
  "\<exists>a b. meanX (windowStatsAtR rnd s width ws wx wy) = roundTo rnd a
       \<and> meanY (windowStatsAtR rnd s width ws wx wy) = roundTo rnd b"
  by (simp add: windowStatsAtR_def Let_def fdiv_def) blast

lemma ssimValR_swap:
  assumes "doublingExact rnd"
    and "meanX st = roundTo rnd a" and "meanY st = roundTo rnd b"
  shows "ssimValR rnd c1 c2 (swapStats st) = ssimValR rnd c1 c2 st"
proof -
  have "ssimNumR rnd c1 c2 (swapStats st) = ssimNumR rnd c1 c2 st"
    by (simp add: ssimNumR_def swapStats_def assms(2,3) twice_product_rounded [OF assms(1), of b a])
  moreover have "ssimDenR rnd c1 c2 (swapStats st) = ssimDenR rnd c1 c2 st"
    by (simp add: ssimDenR_def swapStats_def
        fadd_commute [of rnd "fmul rnd (meanY st) (meanY st)"] fadd_commute [of rnd "varY st"])
  ultimately show ?thesis by (simp add: ssimValR_def)
qed

lemma windowValR_swap:
  assumes "doublingExact rnd"
  shows "ssimValR rnd c1 c2 (windowStatsAtR rnd (buildSatsR rnd img2 img1 width height) width ws wx wy)
       = ssimValR rnd c1 c2 (windowStatsAtR rnd (buildSatsR rnd img1 img2 width height) width ws wx wy)"
proof -
  let ?st = "windowStatsAtR rnd (buildSatsR rnd img1 img2 width height) width ws wx wy"
  from windowStatsAtR_means [of rnd "buildSatsR rnd img1 img2 width height" width ws wx wy]
  obtain a b where "meanX ?st = roundTo rnd a" "meanY ?st = roundTo rnd b"
    by blast
  then have "ssimValR rnd c1 c2 (swapStats ?st) = ssimValR rnd c1 c2 ?st"
    by (rule ssimValR_swap [OF assms])
  then show ?thesis
    by (simp only: buildSatsR_swap [of rnd img2 img1] windowStatsAtR_swap)
qed

text \<open>
  C3.  Exchanging the two images does not change the result, for all buffers, dimensions
  and options, in the model where every operation is rounded: for every rounding under
  which doubling is exact, whatever else it does, the two calls return the same number.
  Nothing but the commutativity of the rounded \<open>+\<close> and \<open>*\<close> and the exact doubling is
  available to the proof, so the equality is that of the values the operations deliver,
  not of their exact counterparts.
\<close>

theorem ssimGreyR_symmetric:
  assumes "doublingExact rnd"
  shows "ssimGreyR rnd img1 img2 width height options = ssimGreyR rnd img2 img1 width height options"
  by (simp add: ssimGreyR_def Let_def windowValR_swap [OF assms, of _ _ img2 img1])

theorem ssimGreyR_symmetric_witness:
  "doublingExact roundFloat
   \<and> ssimGreyR roundFloat [10, 200, 30, 40, 250, 60] [41, 30, 200, 10, 5, 120] 3 2
        (Some \<lparr>windowSize = Some 2, k1 = None, k2 = None, bitDepth = None\<rparr>)
     = ssimGreyR roundFloat [41, 30, 200, 10, 5, 120] [10, 200, 30, 40, 250, 60] 3 2
        (Some \<lparr>windowSize = Some 2, k1 = None, k2 = None, bitDepth = None\<rparr>)
   \<and> ssimGreyR roundFloat [10, 200, 30, 40, 250, 60] [41, 30, 200, 10, 5, 120] 3 2
        (Some \<lparr>windowSize = Some 2, k1 = None, k2 = None, bitDepth = None\<rparr>)
     = Fin (- (29 / 64))"
proof -
  have "ssimGreyR roundFloat [10, 200, 30, 40, 250, 60] [41, 30, 200, 10, 5, 120] 3 2
        (Some \<lparr>windowSize = Some 2, k1 = None, k2 = None, bitDepth = None\<rparr>)
     = Fin (- (29 / 64))"
    by code_simp
  then show ?thesis
    using doublingExact_roundFloat
      ssimGreyR_symmetric [OF doublingExact_roundFloat, of "[10, 200, 30, 40, 250, 60]"
        "[41, 30, 200, 10, 5, 120]" 3 2
        "Some \<lparr>windowSize = Some 2, k1 = None, k2 = None, bitDepth = None\<rparr>"]
    by blast
qed

section \<open>The summed-area tables\<close>

text \<open>
  Each of the five tables is built by the same recurrence on its own per-pixel quantity.
  After the two loops the cell \<open>(X, Y)\<close> of a table holds the sum of its quantity over the
  rectangle from \<open>(0, 0)\<close> to \<open>(X - 1, Y - 1)\<close>.
\<close>

lemma rectSum_0 [simp]: "rectSum g X 0 = 0" "rectSum g 0 Y = 0"
  by (simp_all add: rectSum_def)

lemma rectSum_Suc_Suc:
  "rectSum g (Suc X) (Suc Y) = g X Y + rectSum g (Suc X) Y + rectSum g X (Suc Y) - rectSum g X Y"
  by (simp add: rectSum_def sum.distrib)

lemma rectSum_mono_x:
  assumes "\<And>x y. 0 \<le> g x y"
  shows "rectSum g X Y \<le> rectSum g (Suc X) Y"
  unfolding rectSum_def by (intro sum_mono) (simp add: assms)

lemma rectSum_mono_y:
  assumes "\<And>x y. 0 \<le> g x y"
  shows "rectSum g X Y \<le> rectSum g X (Suc Y)"
  unfolding rectSum_def by (simp add: assms sum_nonneg)

lemma index_eq_iff:
  fixes sw :: nat
  assumes "X < sw" "X' < sw"
  shows "Y * sw + X = Y' * sw + X' \<longleftrightarrow> Y = Y' \<and> X = X'"
proof
  assume eq: "Y * sw + X = Y' * sw + X'"
  have "(Y * sw + X) div sw = Y" "(Y' * sw + X') div sw = Y'"
    using assms by simp_all
  with eq have "Y = Y'" by simp
  with eq show "Y = Y' \<and> X = X'" by simp
qed simp

lemma index_less:
  fixes sw :: nat
  assumes "X < sw" "Y < h"
  shows "Y * sw + X < sw * h"
proof -
  have "Y * sw + X < Y * sw + sw" using assms by simp
  also have "\<dots> = sw * Suc Y" by simp
  also have "\<dots> \<le> sw * h" using assms by (intro mult_le_mono2) simp
  finally show ?thesis .
qed

lemma tableInv_init: "tableInv g width height 0 0 (replicate ((width + 1) * (height + 1)) (Fin 0))"
  unfolding tableInv_def
proof (intro conjI allI impI)
  fix Y X assume "Y \<le> height" "X \<le> width"
  then have "Y * (width + 1) + X < (width + 1) * (height + 1)"
    by (intro index_less) simp_all
  moreover have "(if Y \<le> 0 \<or> (Y = 0 + 1 \<and> X \<le> 0) then rectSum g X Y else 0) = 0"
    by auto
  ultimately show "replicate ((width + 1) * (height + 1)) (Fin 0) ! (Y * (width + 1) + X) =
      Fin (if Y \<le> 0 \<or> (Y = 0 + 1 \<and> X \<le> 0) then rectSum g X Y else 0)"
    by (simp only: nth_replicate)
qed simp

lemma tableInv_cell:
  assumes "tableInv g width height y x t" "Y \<le> height" "X \<le> width"
  shows "cell t (Y * (width + 1) + X) =
           Fin (if Y \<le> y \<or> (Y = y + 1 \<and> X \<le> x) then rectSum g X Y else 0)"
proof -
  have "Y * (width + 1) + X < (width + 1) * (height + 1)"
    using assms(2,3) by (intro index_less) simp_all
  then show ?thesis using assms by (simp add: tableInv_def cell_def)
qed

lemma tableInv_step:
  assumes inv: "tableInv g width height y x t"
    and x: "x < width" and y: "y < height"
    and f: "f x y = Fin (g x y)"
  shows "tableInv g width height y (x + 1) (tableStep f width y x t)"
proof -
  let ?sw = "width + 1"
  have above: "cell t (y * ?sw + (x + 1)) = Fin (rectSum g (x + 1) y)"
    using tableInv_cell [OF inv, of y "x + 1"] x y by simp
  have left: "cell t ((y + 1) * ?sw + x) = Fin (rectSum g x (y + 1))"
    using tableInv_cell [OF inv, of "y + 1" x] x y by simp
  have aboveLeft: "cell t (y * ?sw + x) = Fin (rectSum g x y)"
    using tableInv_cell [OF inv, of y x] x y by simp
  have new: "f x y + cell t (y * ?sw + (x + 1)) + cell t ((y + 1) * ?sw + x) - cell t (y * ?sw + x)
      = Fin (rectSum g (x + 1) (y + 1))"
    by (simp only: above left aboveLeft f) (simp add: rectSum_Suc_Suc)
  have len: "length t = ?sw * (height + 1)"
    using inv by (simp add: tableInv_def)
  have inside: "(y + 1) * ?sw + (x + 1) < length t"
    unfolding len using x y by (intro index_less) simp_all
  show ?thesis
    unfolding tableInv_def
  proof (intro conjI allI impI)
    show "length (tableStep f width y x t) = ?sw * (height + 1)"
      by (simp add: tableStep_def len)
  next
    fix Y X assume Y: "Y \<le> height" and X: "X \<le> width"
    have old: "t ! (Y * ?sw + X) = Fin (if Y \<le> y \<or> (Y = y + 1 \<and> X \<le> x) then rectSum g X Y else 0)"
      using inv Y X by (simp add: tableInv_def)
    show "tableStep f width y x t ! (Y * ?sw + X) =
        Fin (if Y \<le> y \<or> (Y = y + 1 \<and> X \<le> x + 1) then rectSum g X Y else 0)"
    proof (cases "Y = y + 1 \<and> X = x + 1")
      case True
      then show ?thesis
        using inside new by (simp add: tableStep_def)
    next
      case False
      have cond: "(Y \<le> y \<or> (Y = y + 1 \<and> X \<le> x + 1)) \<longleftrightarrow> (Y \<le> y \<or> (Y = y + 1 \<and> X \<le> x))"
        using False by auto
      have "(y + 1) * ?sw + (x + 1) \<noteq> Y * ?sw + X"
        using False X x index_eq_iff [of "x + 1" ?sw X "y + 1" Y] by auto
      then have "tableStep f width y x t ! (Y * ?sw + X) = t ! (Y * ?sw + X)"
        by (simp add: tableStep_def)
      also have "\<dots> = Fin (if Y \<le> y \<or> (Y = y + 1 \<and> X \<le> x + 1) then rectSum g X Y else 0)"
        by (simp only: old cond)
      finally show ?thesis .
    qed
  qed
qed

lemma tableInv_row:
  assumes "y < height" "\<forall>x < width. f x y = Fin (g x y)" "k \<le> width"
    "tableInv g width height y 0 t"
  shows "tableInv g width height y k (fold (\<lambda>x. tableStep f width y x) [0..<k] t)"
  using assms(3)
proof (induction k)
  case 0
  then show ?case using assms(4) by simp
next
  case (Suc k)
  then have "tableInv g width height y k (fold (\<lambda>x. tableStep f width y x) [0..<k] t)" by simp
  from tableInv_step [OF this, of f] Suc.prems assms(1,2) show ?case by simp
qed

lemma tableInv_next_row:
  "tableInv g width height y width t \<Longrightarrow> tableInv g width height (Suc y) 0 t"
  unfolding tableInv_def
  by (intro conjI allI impI, simp) (auto simp: le_Suc_eq)

lemma tableInv_rows:
  assumes "\<forall>y < height. \<forall>x < width. f x y = Fin (g x y)" "k \<le> height"
    "tableInv g width height 0 0 t"
  shows "tableInv g width height k 0
           (fold (\<lambda>y. fold (\<lambda>x. tableStep f width y x) [0..<width]) [0..<k] t)"
  using assms(2)
proof (induction k)
  case 0
  then show ?case using assms(3) by simp
next
  case (Suc k)
  let ?t = "fold (\<lambda>y. fold (\<lambda>x. tableStep f width y x) [0..<width]) [0..<k] t"
  have "tableInv g width height k 0 ?t" using Suc by simp
  then have "tableInv g width height k width (fold (\<lambda>x. tableStep f width k x) [0..<width] ?t)"
    using Suc.prems assms(1) by (intro tableInv_row) simp_all
  then show ?case by (simp add: tableInv_next_row)
qed

lemma buildTable_cell:
  assumes "\<forall>y < height. \<forall>x < width. f x y = Fin (g x y)" "X \<le> width" "Y \<le> height"
  shows "cell (buildTable f width height) (Y * (width + 1) + X) = Fin (rectSum g X Y)"
proof -
  have "tableInv g width height height 0 (buildTable f width height)"
    unfolding buildTable_def using assms(1) by (intro tableInv_rows tableInv_init) simp_all
  from tableInv_cell [OF this assms(3,2)] assms(3) show ?thesis by simp
qed

lemma buildTable_length: "length (buildTable f width height) = (width + 1) * (height + 1)"
proof -
  have row: "length (fold (\<lambda>x. tableStep f width y x) xs t) = length t" for y xs t
    by (induction xs arbitrary: t) (simp_all add: tableStep_def)
  have "length (fold (\<lambda>y. fold (\<lambda>x. tableStep f width y x) xs) ys t) = length t" for xs ys t
    by (induction ys arbitrary: t) (simp_all add: row)
  then show ?thesis by (simp add: buildTable_def)
qed

lemma satStep_index:
  "(y + 1) * (width + 1) + (x + 1) - (width + 1) = y * (width + 1) + (x + 1)"
  "(y + 1) * (width + 1) + (x + 1) - 1 = (y + 1) * (width + 1) + x"
  "(y + 1) * (width + 1) + (x + 1) - (width + 1) - 1 = y * (width + 1) + x"
  for x y width :: nat
  by simp_all

lemma satStep_tables:
  "satX (satStep img1 img2 width y x s) = tableStep (\<lambda>x y. sample img1 (y * width + x)) width y x (satX s)"
  "satY (satStep img1 img2 width y x s) = tableStep (\<lambda>x y. sample img2 (y * width + x)) width y x (satY s)"
  "satX2 (satStep img1 img2 width y x s) =
     tableStep (\<lambda>x y. sample img1 (y * width + x) * sample img1 (y * width + x)) width y x (satX2 s)"
  "satY2 (satStep img1 img2 width y x s) =
     tableStep (\<lambda>x y. sample img2 (y * width + x) * sample img2 (y * width + x)) width y x (satY2 s)"
  "satXY (satStep img1 img2 width y x s) =
     tableStep (\<lambda>x y. sample img1 (y * width + x) * sample img2 (y * width + x)) width y x (satXY s)"
  unfolding satStep_def tableStep_def Let_def satStep_index by simp_all

lemma fold_satStep_tables:
  "satX (fold (\<lambda>x. satStep img1 img2 width y x) xs s) =
     fold (\<lambda>x. tableStep (\<lambda>x y. sample img1 (y * width + x)) width y x) xs (satX s)"
  "satY (fold (\<lambda>x. satStep img1 img2 width y x) xs s) =
     fold (\<lambda>x. tableStep (\<lambda>x y. sample img2 (y * width + x)) width y x) xs (satY s)"
  "satX2 (fold (\<lambda>x. satStep img1 img2 width y x) xs s) =
     fold (\<lambda>x. tableStep (\<lambda>x y. sample img1 (y * width + x) * sample img1 (y * width + x)) width y x) xs (satX2 s)"
  "satY2 (fold (\<lambda>x. satStep img1 img2 width y x) xs s) =
     fold (\<lambda>x. tableStep (\<lambda>x y. sample img2 (y * width + x) * sample img2 (y * width + x)) width y x) xs (satY2 s)"
  "satXY (fold (\<lambda>x. satStep img1 img2 width y x) xs s) =
     fold (\<lambda>x. tableStep (\<lambda>x y. sample img1 (y * width + x) * sample img2 (y * width + x)) width y x) xs (satXY s)"
  by (induction xs arbitrary: s; simp add: satStep_tables)+

lemma fold_rows_satStep_tables:
  "satX (fold (\<lambda>y. fold (\<lambda>x. satStep img1 img2 width y x) xs) ys s) =
     fold (\<lambda>y. fold (\<lambda>x. tableStep (\<lambda>x y. sample img1 (y * width + x)) width y x) xs) ys (satX s)"
  "satY (fold (\<lambda>y. fold (\<lambda>x. satStep img1 img2 width y x) xs) ys s) =
     fold (\<lambda>y. fold (\<lambda>x. tableStep (\<lambda>x y. sample img2 (y * width + x)) width y x) xs) ys (satY s)"
  "satX2 (fold (\<lambda>y. fold (\<lambda>x. satStep img1 img2 width y x) xs) ys s) =
     fold (\<lambda>y. fold (\<lambda>x. tableStep (\<lambda>x y. sample img1 (y * width + x) * sample img1 (y * width + x)) width y x) xs) ys (satX2 s)"
  "satY2 (fold (\<lambda>y. fold (\<lambda>x. satStep img1 img2 width y x) xs) ys s) =
     fold (\<lambda>y. fold (\<lambda>x. tableStep (\<lambda>x y. sample img2 (y * width + x) * sample img2 (y * width + x)) width y x) xs) ys (satY2 s)"
  "satXY (fold (\<lambda>y. fold (\<lambda>x. satStep img1 img2 width y x) xs) ys s) =
     fold (\<lambda>y. fold (\<lambda>x. tableStep (\<lambda>x y. sample img1 (y * width + x) * sample img2 (y * width + x)) width y x) xs) ys (satXY s)"
  by (induction ys arbitrary: s; simp add: fold_satStep_tables)+

lemma buildSats_tables:
  "satX (buildSats img1 img2 width height) = buildTable (\<lambda>x y. sample img1 (y * width + x)) width height"
  "satY (buildSats img1 img2 width height) = buildTable (\<lambda>x y. sample img2 (y * width + x)) width height"
  "satX2 (buildSats img1 img2 width height) =
     buildTable (\<lambda>x y. sample img1 (y * width + x) * sample img1 (y * width + x)) width height"
  "satY2 (buildSats img1 img2 width height) =
     buildTable (\<lambda>x y. sample img2 (y * width + x) * sample img2 (y * width + x)) width height"
  "satXY (buildSats img1 img2 width height) =
     buildTable (\<lambda>x y. sample img1 (y * width + x) * sample img2 (y * width + x)) width height"
  by (simp_all add: buildSats_def buildTable_def fold_rows_satStep_tables newSats_def)

lemma sample_inside:
  assumes "length img = width * height" "x < width" "y < height"
  shows "sample img (y * width + x) = Fin (pixelAt img width x y)"
proof -
  have "y * width + x < width * height"
    using assms(2,3) by (rule index_less)
  then show ?thesis by (simp add: sample_def pixelAt_def assms(1))
qed

lemma pixelAt_nonneg: "0 \<le> pixelAt img width x y"
  by (simp add: pixelAt_def)

lemma sat_cells:
  assumes "validImages img1 img2 width height" "X \<le> width" "Y \<le> height"
  shows "cell (satX (buildSats img1 img2 width height)) (Y * (width + 1) + X) =
           Fin (rectSum (pixelAt img1 width) X Y)"
    and "cell (satY (buildSats img1 img2 width height)) (Y * (width + 1) + X) =
           Fin (rectSum (pixelAt img2 width) X Y)"
    and "cell (satX2 (buildSats img1 img2 width height)) (Y * (width + 1) + X) =
           Fin (rectSum (\<lambda>x y. pixelAt img1 width x y * pixelAt img1 width x y) X Y)"
    and "cell (satY2 (buildSats img1 img2 width height)) (Y * (width + 1) + X) =
           Fin (rectSum (\<lambda>x y. pixelAt img2 width x y * pixelAt img2 width x y) X Y)"
    and "cell (satXY (buildSats img1 img2 width height)) (Y * (width + 1) + X) =
           Fin (rectSum (\<lambda>x y. pixelAt img1 width x y * pixelAt img2 width x y) X Y)"
proof -
  have l1: "length img1 = width * height" and l2: "length img2 = width * height"
    using assms(1) by (simp_all add: validImages_def)
  show "cell (satX (buildSats img1 img2 width height)) (Y * (width + 1) + X) =
           Fin (rectSum (pixelAt img1 width) X Y)"
    unfolding buildSats_tables
    by (rule buildTable_cell [OF _ assms(2,3)]) (simp add: sample_inside [OF l1])
  show "cell (satY (buildSats img1 img2 width height)) (Y * (width + 1) + X) =
           Fin (rectSum (pixelAt img2 width) X Y)"
    unfolding buildSats_tables
    by (rule buildTable_cell [OF _ assms(2,3)]) (simp add: sample_inside [OF l2])
  show "cell (satX2 (buildSats img1 img2 width height)) (Y * (width + 1) + X) =
           Fin (rectSum (\<lambda>x y. pixelAt img1 width x y * pixelAt img1 width x y) X Y)"
    unfolding buildSats_tables
    by (rule buildTable_cell [OF _ assms(2,3)]) (simp add: sample_inside [OF l1])
  show "cell (satY2 (buildSats img1 img2 width height)) (Y * (width + 1) + X) =
           Fin (rectSum (\<lambda>x y. pixelAt img2 width x y * pixelAt img2 width x y) X Y)"
    unfolding buildSats_tables
    by (rule buildTable_cell [OF _ assms(2,3)]) (simp add: sample_inside [OF l2])
  show "cell (satXY (buildSats img1 img2 width height)) (Y * (width + 1) + X) =
           Fin (rectSum (\<lambda>x y. pixelAt img1 width x y * pixelAt img2 width x y) X Y)"
    unfolding buildSats_tables
    by (rule buildTable_cell [OF _ assms(2,3)]) (simp add: sample_inside [OF l1] sample_inside [OF l2])
qed

lemma buildTable_good:
  assumes "\<forall>y < height. \<forall>x < width. f x y = Fin (g x y)" "\<forall>x y. 0 \<le> g x y"
  shows "goodTable width height (buildTable f width height)"
  unfolding goodTable_def
  using assms buildTable_cell [OF assms(1)] buildTable_length [of f width height] by blast

lemma tables_good:
  assumes "validImages img1 img2 width height"
    and "t \<in> set (tablesOf (buildSats img1 img2 width height))"
  shows "goodTable width height t"
proof -
  have l1: "length img1 = width * height" and l2: "length img2 = width * height"
    using assms(1) by (simp_all add: validImages_def)
  have "goodTable width height (buildTable (\<lambda>x y. sample img1 (y * width + x)) width height)"
    by (rule buildTable_good [where g = "pixelAt img1 width"])
      (simp_all add: sample_inside [OF l1] pixelAt_nonneg)
  moreover have "goodTable width height (buildTable (\<lambda>x y. sample img2 (y * width + x)) width height)"
    by (rule buildTable_good [where g = "pixelAt img2 width"])
      (simp_all add: sample_inside [OF l2] pixelAt_nonneg)
  moreover have "goodTable width height
      (buildTable (\<lambda>x y. sample img1 (y * width + x) * sample img1 (y * width + x)) width height)"
    by (rule buildTable_good [where g = "\<lambda>x y. pixelAt img1 width x y * pixelAt img1 width x y"])
      (simp_all add: sample_inside [OF l1])
  moreover have "goodTable width height
      (buildTable (\<lambda>x y. sample img2 (y * width + x) * sample img2 (y * width + x)) width height)"
    by (rule buildTable_good [where g = "\<lambda>x y. pixelAt img2 width x y * pixelAt img2 width x y"])
      (simp_all add: sample_inside [OF l2])
  moreover have "goodTable width height
      (buildTable (\<lambda>x y. sample img1 (y * width + x) * sample img2 (y * width + x)) width height)"
    by (rule buildTable_good [where g = "\<lambda>x y. pixelAt img1 width x y * pixelAt img2 width x y"])
      (simp_all add: sample_inside [OF l1] sample_inside [OF l2] pixelAt_nonneg)
  ultimately show ?thesis
    using assms(2) by (auto simp: tablesOf_def buildSats_tables)
qed

text \<open>
  C7.  For two images of \<open>width * height\<close> non-negative integer samples, each of the five
  tables has \<open>(width + 1) * (height + 1)\<close> cells, every cell is finite, and the cells do
  not decrease from \<open>(X, Y)\<close> to \<open>(X + 1, Y)\<close> nor from \<open>(X, Y)\<close> to \<open>(X, Y + 1)\<close>.
\<close>

theorem tables_finite_and_monotone:
  assumes "validImages img1 img2 width height"
    and "t \<in> set (tablesOf (buildSats img1 img2 width height))"
    and "X \<le> width" and "Y \<le> height"
  shows "length t = (width + 1) * (height + 1)
       \<and> isFinite (cell t (Y * (width + 1) + X))
       \<and> (X < width \<longrightarrow> cell t (Y * (width + 1) + X) \<le> cell t (Y * (width + 1) + (X + 1)))
       \<and> (Y < height \<longrightarrow> cell t (Y * (width + 1) + X) \<le> cell t ((Y + 1) * (width + 1) + X))"
proof -
  from tables_good [OF assms(1,2)] obtain g where g: "\<And>x y. 0 \<le> g x y"
    and c: "\<And>X Y. X \<le> width \<Longrightarrow> Y \<le> height \<Longrightarrow> cell t (Y * (width + 1) + X) = Fin (rectSum g X Y)"
    and l: "length t = (width + 1) * (height + 1)"
    unfolding goodTable_def by blast
  have here: "cell t (Y * (width + 1) + X) = Fin (rectSum g X Y)"
    using assms(3,4) by (rule c)
  have right: "cell t (Y * (width + 1) + (X + 1)) = Fin (rectSum g (Suc X) Y)" if "X < width"
    using c [of "X + 1" Y] that assms(4) by simp
  have below: "cell t ((Y + 1) * (width + 1) + X) = Fin (rectSum g X (Suc Y))" if "Y < height"
    using c [of X "Y + 1"] that assms(3) by simp
  have "isFinite (cell t (Y * (width + 1) + X))"
    by (simp only: here isFinite.simps)
  moreover have "cell t (Y * (width + 1) + X) \<le> cell t (Y * (width + 1) + (X + 1))" if "X < width"
    by (simp only: here right [OF that] less_eq_number.simps rectSum_mono_x [OF g])
  moreover have "cell t (Y * (width + 1) + X) \<le> cell t ((Y + 1) * (width + 1) + X)" if "Y < height"
    by (simp only: here below [OF that] less_eq_number.simps rectSum_mono_y [OF g])
  ultimately show ?thesis
    using l by blast
qed

theorem tables_finite_and_monotone_witness:
  "validImages [1, 2, 3, 4] [4, 3, 2, 1] 2 2
   \<and> length (satXY (buildSats [1, 2, 3, 4] [4, 3, 2, 1] 2 2)) = 9
   \<and> isFinite (cell (satXY (buildSats [1, 2, 3, 4] [4, 3, 2, 1] 2 2)) 4)
   \<and> cell (satXY (buildSats [1, 2, 3, 4] [4, 3, 2, 1] 2 2)) 4
       \<le> cell (satXY (buildSats [1, 2, 3, 4] [4, 3, 2, 1] 2 2)) 5
   \<and> cell (satXY (buildSats [1, 2, 3, 4] [4, 3, 2, 1] 2 2)) 4
       \<le> cell (satXY (buildSats [1, 2, 3, 4] [4, 3, 2, 1] 2 2)) 7"
proof -
  have valid: "validImages [1, 2, 3, 4] [4, 3, 2, 1] 2 2"
    by (simp add: validImages_def)
  have mem: "satXY (buildSats [1, 2, 3, 4] [4, 3, 2, 1] 2 2)
      \<in> set (tablesOf (buildSats [1, 2, 3, 4] [4, 3, 2, 1] 2 2))"
    by (simp add: tablesOf_def)
  from tables_finite_and_monotone [OF valid mem, of 1 1] valid show ?thesis
    by simp
qed

section \<open>Window statistics from the tables\<close>

lemma rectSum_split_columns:
  "rectSum g (wx + ws) Y - rectSum g wx Y = (\<Sum>y<Y. \<Sum>x = wx..<wx + ws. g x y)"
proof -
  have "(\<Sum>x<wx + ws. g x y) = (\<Sum>x<wx. g x y) + (\<Sum>x = wx..<wx + ws. g x y)" for y
    using sum.atLeastLessThan_concat [of 0 wx "wx + ws" "\<lambda>x. g x y"]
    by (simp add: lessThan_atLeast0)
  then show ?thesis
    by (simp add: rectSum_def sum.distrib)
qed

lemma window_from_rect:
  "rectSum g (wx + ws) (wy + ws) - rectSum g wx (wy + ws) - rectSum g (wx + ws) wy + rectSum g wx wy
     = windowSum g ws wx wy"
proof -
  let ?row = "\<lambda>y. \<Sum>x = wx..<wx + ws. g x y"
  have "(\<Sum>y<wy + ws. ?row y) = (\<Sum>y<wy. ?row y) + (\<Sum>y = wy..<wy + ws. ?row y)"
    using sum.atLeastLessThan_concat [of 0 wy "wy + ws" ?row]
    by (simp add: lessThan_atLeast0)
  then have "(rectSum g (wx + ws) (wy + ws) - rectSum g wx (wy + ws))
      - (rectSum g (wx + ws) wy - rectSum g wx wy) = windowSum g ws wx wy"
    by (simp add: rectSum_split_columns windowSum_def)
  then show ?thesis by simp
qed

lemma windowSum_add:
  "windowSum (\<lambda>x y. g x y + h x y) ws wx wy = windowSum g ws wx wy + windowSum h ws wx wy"
  by (simp add: windowSum_def sum.distrib)

lemma windowSum_diff:
  "windowSum (\<lambda>x y. g x y - h x y) ws wx wy = windowSum g ws wx wy - windowSum h ws wx wy"
  by (simp add: windowSum_def sum_subtractf)

lemma windowSum_scale:
  "windowSum (\<lambda>x y. c * g x y) ws wx wy = c * windowSum g ws wx wy"
  by (simp add: windowSum_def sum_distrib_left)

lemma windowSum_const:
  "windowSum (\<lambda>x y. c) ws wx wy = of_nat (ws * ws) * c"
  by (simp add: windowSum_def)

lemma windowSum_nonneg:
  "(\<And>x y. 0 \<le> g x y) \<Longrightarrow> 0 \<le> windowSum g ws wx wy"
  by (simp add: windowSum_def sum_nonneg)

lemma directCov_expand:
  assumes "0 < ws"
  shows "directCov g h ws wx wy =
           windowSum (\<lambda>x y. g x y * h x y) ws wx wy / of_nat (ws * ws)
             - directMean g ws wx wy * directMean h ws wx wy"
proof -
  let ?n = "of_nat (ws * ws) :: rat"
  let ?a = "directMean g ws wx wy" and ?b = "directMean h ws wx wy"
  have n: "?n \<noteq> 0" using assms by simp
  have sg: "windowSum g ws wx wy = ?n * ?a" and sh: "windowSum h ws wx wy = ?n * ?b"
    using n by (simp_all add: directMean_def)
  have "(\<lambda>x y. (g x y - ?a) * (h x y - ?b)) =
        (\<lambda>x y. g x y * h x y - ?b * g x y - ?a * h x y + ?a * ?b)"
    by (intro ext) (simp add: algebra_simps)
  then have "windowSum (\<lambda>x y. (g x y - ?a) * (h x y - ?b)) ws wx wy =
      windowSum (\<lambda>x y. g x y * h x y) ws wx wy - ?b * windowSum g ws wx wy
        - ?a * windowSum h ws wx wy + ?n * (?a * ?b)"
    by (simp only: windowSum_add windowSum_diff windowSum_scale windowSum_const) (simp add: mult_ac)
  also have "\<dots> = windowSum (\<lambda>x y. g x y * h x y) ws wx wy - ?n * (?a * ?b)"
    by (simp add: sg sh algebra_simps)
  finally show ?thesis
    using n by (simp add: directCov_def diff_divide_distrib)
qed

lemma directVar_eq_directCov: "directVar g ws wx wy = directCov g g ws wx wy"
  by (simp add: directVar_def directCov_def power2_eq_square)

lemma directVar_expand:
  assumes "0 < ws"
  shows "directVar g ws wx wy =
           windowSum (\<lambda>x y. g x y * g x y) ws wx wy / of_nat (ws * ws)
             - directMean g ws wx wy * directMean g ws wx wy"
  using directCov_expand [OF assms, of g g] by (simp add: directVar_eq_directCov)

lemma corner_sum:
  assumes "\<And>X Y. X \<le> width \<Longrightarrow> Y \<le> height \<Longrightarrow> cell t (Y * (width + 1) + X) = Fin (rectSum g X Y)"
    and "wx + ws \<le> width" "wy + ws \<le> height"
  shows "cell t ((wy + ws) * (width + 1) + (wx + ws)) - cell t ((wy + ws) * (width + 1) + wx)
           - cell t (wy * (width + 1) + (wx + ws)) + cell t (wy * (width + 1) + wx)
         = Fin (windowSum g ws wx wy)"
proof -
  have "cell t ((wy + ws) * (width + 1) + (wx + ws)) = Fin (rectSum g (wx + ws) (wy + ws))"
    "cell t ((wy + ws) * (width + 1) + wx) = Fin (rectSum g wx (wy + ws))"
    "cell t (wy * (width + 1) + (wx + ws)) = Fin (rectSum g (wx + ws) wy)"
    "cell t (wy * (width + 1) + wx) = Fin (rectSum g wx wy)"
    by (rule assms(1); use assms(2,3) in simp)+
  then show ?thesis
    by (simp only: Fin_minus plus_number.simps window_from_rect)
qed

lemma window_stats_direct:
  assumes "validImages img1 img2 width height"
    and "0 < ws" and "wx + ws \<le> width" and "wy + ws \<le> height"
  shows "windowStatsAt (buildSats img1 img2 width height) width ws wx wy =
           \<lparr>meanX = Fin (directMean (pixelAt img1 width) ws wx wy),
            meanY = Fin (directMean (pixelAt img2 width) ws wx wy),
            varX = Fin (directVar (pixelAt img1 width) ws wx wy),
            varY = Fin (directVar (pixelAt img2 width) ws wx wy),
            covXY = Fin (directCov (pixelAt img1 width) (pixelAt img2 width) ws wx wy)\<rparr>"
proof -
  let ?s = "buildSats img1 img2 width height"
  have n: "(of_nat (ws * ws) :: rat) \<noteq> 0" using assms(2) by simp
  have sums:
    "cell (satX ?s) ((wy + ws) * (width + 1) + (wx + ws)) - cell (satX ?s) ((wy + ws) * (width + 1) + wx)
       - cell (satX ?s) (wy * (width + 1) + (wx + ws)) + cell (satX ?s) (wy * (width + 1) + wx)
     = Fin (windowSum (pixelAt img1 width) ws wx wy)"
    "cell (satY ?s) ((wy + ws) * (width + 1) + (wx + ws)) - cell (satY ?s) ((wy + ws) * (width + 1) + wx)
       - cell (satY ?s) (wy * (width + 1) + (wx + ws)) + cell (satY ?s) (wy * (width + 1) + wx)
     = Fin (windowSum (pixelAt img2 width) ws wx wy)"
    "cell (satX2 ?s) ((wy + ws) * (width + 1) + (wx + ws)) - cell (satX2 ?s) ((wy + ws) * (width + 1) + wx)
       - cell (satX2 ?s) (wy * (width + 1) + (wx + ws)) + cell (satX2 ?s) (wy * (width + 1) + wx)
     = Fin (windowSum (\<lambda>x y. pixelAt img1 width x y * pixelAt img1 width x y) ws wx wy)"
    "cell (satY2 ?s) ((wy + ws) * (width + 1) + (wx + ws)) - cell (satY2 ?s) ((wy + ws) * (width + 1) + wx)
       - cell (satY2 ?s) (wy * (width + 1) + (wx + ws)) + cell (satY2 ?s) (wy * (width + 1) + wx)
     = Fin (windowSum (\<lambda>x y. pixelAt img2 width x y * pixelAt img2 width x y) ws wx wy)"
    "cell (satXY ?s) ((wy + ws) * (width + 1) + (wx + ws)) - cell (satXY ?s) ((wy + ws) * (width + 1) + wx)
       - cell (satXY ?s) (wy * (width + 1) + (wx + ws)) + cell (satXY ?s) (wy * (width + 1) + wx)
     = Fin (windowSum (\<lambda>x y. pixelAt img1 width x y * pixelAt img2 width x y) ws wx wy)"
    by (rule corner_sum [OF _ assms(3,4)], rule sat_cells [OF assms(1)], assumption+)+
  show ?thesis
    unfolding windowStatsAt_def Let_def sums
    using n
    by (simp add: directVar_expand [OF assms(2)] directCov_expand [OF assms(2)] directMean_def)
qed

text \<open>
  C1.  For two images of \<open>width * height\<close> samples, a positive window size \<open>ws\<close> and a
  window that lies inside the image, the mean, the variance and the covariance that the
  program derives from the four corners \<open>br - bl - tr + tl\<close> of the tables, divided by
  \<open>ws\<^sup>2\<close>, less the product of the means, are the mean, the variance and the covariance
  computed directly over the raw pixels of the window.
\<close>

theorem window_statistics_from_tables:
  assumes "validImages img1 img2 width height"
    and "0 < ws" and "wx + ws \<le> width" and "wy + ws \<le> height"
  shows "windowStatsAt (buildSats img1 img2 width height) width ws wx wy =
           \<lparr>meanX = Fin (directMean (pixelAt img1 width) ws wx wy),
            meanY = Fin (directMean (pixelAt img2 width) ws wx wy),
            varX = Fin (directVar (pixelAt img1 width) ws wx wy),
            varY = Fin (directVar (pixelAt img2 width) ws wx wy),
            covXY = Fin (directCov (pixelAt img1 width) (pixelAt img2 width) ws wx wy)\<rparr>"
  using assms by (rule window_stats_direct)

theorem window_statistics_from_tables_witness:
  "validImages [1, 2, 3, 4] [4, 3, 2, 1] 2 2
   \<and> windowStatsAt (buildSats [1, 2, 3, 4] [4, 3, 2, 1] 2 2) 2 2 0 0 =
       \<lparr>meanX = Fin (directMean (pixelAt [1, 2, 3, 4] 2) 2 0 0),
        meanY = Fin (directMean (pixelAt [4, 3, 2, 1] 2) 2 0 0),
        varX = Fin (directVar (pixelAt [1, 2, 3, 4] 2) 2 0 0),
        varY = Fin (directVar (pixelAt [4, 3, 2, 1] 2) 2 0 0),
        covXY = Fin (directCov (pixelAt [1, 2, 3, 4] 2) (pixelAt [4, 3, 2, 1] 2) 2 0 0)\<rparr>
   \<and> directMean (pixelAt [1, 2, 3, 4] 2) 2 0 0 = 5 / 2
   \<and> directVar (pixelAt [1, 2, 3, 4] 2) 2 0 0 = 5 / 4
   \<and> directCov (pixelAt [1, 2, 3, 4] 2) (pixelAt [4, 3, 2, 1] 2) 2 0 0 = - 5 / 4"
proof -
  have valid: "validImages [1, 2, 3, 4] [4, 3, 2, 1] 2 2"
    by (simp add: validImages_def)
  have "directMean (pixelAt [1, 2, 3, 4] 2) 2 0 0 = 5 / 2"
    by code_simp
  moreover have "directVar (pixelAt [1, 2, 3, 4] 2) 2 0 0 = 5 / 4"
    by code_simp
  moreover have "directCov (pixelAt [1, 2, 3, 4] 2) (pixelAt [4, 3, 2, 1] 2) 2 0 0 = - 5 / 4"
    by code_simp
  ultimately show ?thesis
    using valid window_statistics_from_tables [OF valid, of 2 0 0] by simp
qed

section \<open>Bounds on the window value\<close>

lemma directMean_nonneg: "(\<And>x y. 0 \<le> g x y) \<Longrightarrow> 0 \<le> directMean g ws wx wy"
  by (simp add: directMean_def windowSum_nonneg)

lemma directVar_nonneg: "0 \<le> directVar g ws wx wy"
  unfolding directVar_def by (intro divide_nonneg_nonneg windowSum_nonneg) simp_all

lemma windowSum_square_add:
  "windowSum (\<lambda>x y. (a x y + b x y) ^ 2) ws wx wy =
     windowSum (\<lambda>x y. (a x y) ^ 2) ws wx wy + windowSum (\<lambda>x y. (b x y) ^ 2) ws wx wy
       + 2 * windowSum (\<lambda>x y. a x y * b x y) ws wx wy"
proof -
  have "(\<lambda>x y. (a x y + b x y) ^ 2) = (\<lambda>x y. (a x y) ^ 2 + (b x y) ^ 2 + 2 * (a x y * b x y))"
    by (intro ext) (simp add: power2_sum)
  then show ?thesis
    by (simp only: windowSum_add windowSum_scale)
qed

lemma windowSum_square_diff:
  "windowSum (\<lambda>x y. (a x y - b x y) ^ 2) ws wx wy =
     windowSum (\<lambda>x y. (a x y) ^ 2) ws wx wy + windowSum (\<lambda>x y. (b x y) ^ 2) ws wx wy
       - 2 * windowSum (\<lambda>x y. a x y * b x y) ws wx wy"
proof -
  have "(\<lambda>x y. (a x y - b x y) ^ 2) = (\<lambda>x y. (a x y) ^ 2 + (b x y) ^ 2 - 2 * (a x y * b x y))"
    by (intro ext) (simp add: power2_diff)
  then show ?thesis
    by (simp only: windowSum_add windowSum_diff windowSum_scale)
qed

lemma directCov_upper: "2 * directCov g h ws wx wy \<le> directVar g ws wx wy + directVar h ws wx wy"
proof -
  let ?a = "\<lambda>x y. g x y - directMean g ws wx wy" and ?b = "\<lambda>x y. h x y - directMean h ws wx wy"
  have "0 \<le> windowSum (\<lambda>x y. (?a x y - ?b x y) ^ 2) ws wx wy / of_nat (ws * ws)"
    by (intro divide_nonneg_nonneg windowSum_nonneg) simp_all
  also have "\<dots> = directVar g ws wx wy + directVar h ws wx wy - 2 * directCov g h ws wx wy"
    by (simp only: windowSum_square_diff directVar_def directCov_def)
      (simp add: add_divide_distrib diff_divide_distrib)
  finally show ?thesis by simp
qed

lemma directCov_lower: "- (directVar g ws wx wy + directVar h ws wx wy) \<le> 2 * directCov g h ws wx wy"
proof -
  let ?a = "\<lambda>x y. g x y - directMean g ws wx wy" and ?b = "\<lambda>x y. h x y - directMean h ws wx wy"
  have "0 \<le> windowSum (\<lambda>x y. (?a x y + ?b x y) ^ 2) ws wx wy / of_nat (ws * ws)"
    by (intro divide_nonneg_nonneg windowSum_nonneg) simp_all
  also have "\<dots> = directVar g ws wx wy + directVar h ws wx wy + 2 * directCov g h ws wx wy"
    by (simp only: windowSum_square_add directVar_def directCov_def)
      (simp add: add_divide_distrib)
  finally show ?thesis by simp
qed

lemma ssimNum_Fin:
  "ssimNum (Fin a) (Fin b) \<lparr>meanX = Fin mx, meanY = Fin my, varX = Fin vx, varY = Fin vy, covXY = Fin cxy\<rparr>
     = Fin (ratNum a b mx my cxy)"
  by (simp add: ssimNum_def ratNum_def)

lemma ssimDen_Fin:
  "ssimDen (Fin a) (Fin b) \<lparr>meanX = Fin mx, meanY = Fin my, varX = Fin vx, varY = Fin vy, covXY = Fin cxy\<rparr>
     = Fin (ratDen a b mx my vx vy)"
  by (simp add: ssimDen_def ratDen_def)

lemma ratDen_nonneg:
  assumes "0 \<le> a" "0 \<le> b" "0 \<le> vx" "0 \<le> vy"
  shows "0 \<le> ratDen a b mx my vx vy"
proof -
  have "0 \<le> mx * mx + my * my + a" "0 \<le> vx + vy + b"
    using assms by (simp_all add: add_nonneg_nonneg)
  then show ?thesis
    unfolding ratDen_def by (rule mult_nonneg_nonneg)
qed

lemma ratDen_pos:
  assumes "0 < a" "0 < b" "0 \<le> vx" "0 \<le> vy"
  shows "0 < ratDen a b mx my vx vy"
proof -
  have "0 < mx * mx + my * my + a" "0 < vx + vy + b"
    using assms by (simp_all add: add_nonneg_pos)
  then show ?thesis
    unfolding ratDen_def by (rule mult_pos_pos)
qed

lemma ratNum_bounds:
  assumes a: "0 \<le> a" and b: "0 \<le> b" and mx: "0 \<le> mx" and my: "0 \<le> my"
    and up: "2 * cxy \<le> vx + vy" and lo: "- (vx + vy) \<le> 2 * cxy"
  shows "ratNum a b mx my cxy \<le> ratDen a b mx my vx vy"
    and "- ratDen a b mx my vx vy \<le> ratNum a b mx my cxy"
proof -
  let ?p = "2 * mx * my + a" and ?q = "mx * mx + my * my + a"
  let ?r = "2 * cxy + b" and ?s = "vx + vy + b"
  have "0 \<le> (mx - my) * (mx - my)" by simp
  then have pq: "?p \<le> ?q" by (simp add: algebra_simps)
  have p0: "0 \<le> ?p" using a mx my by simp
  have rs: "?r \<le> ?s" and rs': "- ?s \<le> ?r" using up lo b by simp_all
  have s0: "0 \<le> ?s" using rs rs' by linarith
  have "?p * ?r \<le> ?p * ?s" using p0 rs by (rule mult_left_mono [rotated])
  also have "\<dots> \<le> ?q * ?s" using pq s0 by (rule mult_right_mono)
  finally show "ratNum a b mx my cxy \<le> ratDen a b mx my vx vy"
    by (simp add: ratNum_def ratDen_def)
  have "- (?q * ?s) \<le> - (?p * ?s)" using pq s0 by (simp add: mult_right_mono)
  also have "\<dots> = ?p * (- ?s)" by (rule mult_minus_right [symmetric])
  also have "\<dots> \<le> ?p * ?r" using p0 rs' by (rule mult_left_mono [rotated])
  finally show "- ratDen a b mx my vx vy \<le> ratNum a b mx my cxy"
    by (simp add: ratNum_def ratDen_def)
qed

lemma ratNum_zero:
  assumes a: "0 \<le> a" and b: "0 \<le> b" and vx: "0 \<le> vx" and vy: "0 \<le> vy"
    and up: "2 * cxy \<le> vx + vy" and lo: "- (vx + vy) \<le> 2 * cxy"
    and den: "ratDen a b mx my vx vy = 0"
  shows "ratNum a b mx my cxy = 0"
proof -
  from den consider "mx * mx + my * my + a = 0" | "vx + vy + b = 0"
    by (auto simp: ratDen_def)
  then show ?thesis
  proof cases
    case 1
    have "0 \<le> mx * mx" "0 \<le> my * my" by simp_all
    with 1 a have "mx * mx = 0" "a = 0" by linarith+
    then show ?thesis by (simp add: ratNum_def)
  next
    case 2
    with b vx vy have "vx = 0" "vy = 0" "b = 0" by linarith+
    with up lo have "cxy = 0" "b = 0" by simp_all
    then show ?thesis by (simp add: ratNum_def)
  qed
qed

lemma window_num_den:
  assumes valid: "validImages img1 img2 width height"
    and ws: "0 < windowSizeOf options"
    and inside: "wx + windowSizeOf options \<le> width" "wy + windowSizeOf options \<le> height"
  shows "\<exists>n d. ssimNum (c1Of options) (c2Of options) (statsAt img1 img2 width height options (wx, wy)) = Fin n
             \<and> ssimDen (c1Of options) (c2Of options) (statsAt img1 img2 width height options (wx, wy)) = Fin d
             \<and> - d \<le> n \<and> n \<le> d \<and> (d = 0 \<longrightarrow> n = 0)
             \<and> (positiveConstants options \<longrightarrow> 0 < d)
             \<and> (img1 = img2 \<longrightarrow> n = d)"
proof -
  let ?ws = "windowSizeOf options"
  let ?X = "pixelAt img1 width" and ?Y = "pixelAt img2 width"
  let ?mx = "directMean ?X ?ws wx wy" and ?my = "directMean ?Y ?ws wx wy"
  let ?vx = "directVar ?X ?ws wx wy" and ?vy = "directVar ?Y ?ws wx wy"
  let ?cxy = "directCov ?X ?Y ?ws wx wy"
  from constants_exist [of options] obtain a b
    where c: "c1Of options = Fin a" "c2Of options = Fin b"
      and a: "0 \<le> a" and b: "0 \<le> b"
      and pos: "positiveConstants options \<longrightarrow> 0 < a \<and> 0 < b"
    by blast
  let ?n = "ratNum a b ?mx ?my ?cxy" and ?d = "ratDen a b ?mx ?my ?vx ?vy"
  have stats: "statsAt img1 img2 width height options (wx, wy) =
      \<lparr>meanX = Fin ?mx, meanY = Fin ?my, varX = Fin ?vx, varY = Fin ?vy, covXY = Fin ?cxy\<rparr>"
    unfolding statsAt_def fst_conv snd_conv
    by (rule window_stats_direct [OF valid ws inside])
  have mx: "0 \<le> ?mx" and my: "0 \<le> ?my"
    by (simp_all add: directMean_nonneg pixelAt_nonneg)
  have vx: "0 \<le> ?vx" and vy: "0 \<le> ?vy"
    by (rule directVar_nonneg)+
  have up: "2 * ?cxy \<le> ?vx + ?vy" by (rule directCov_upper)
  have lo: "- (?vx + ?vy) \<le> 2 * ?cxy" by (rule directCov_lower)
  have "ssimNum (c1Of options) (c2Of options) (statsAt img1 img2 width height options (wx, wy)) = Fin ?n"
    by (simp only: stats c ssimNum_Fin)
  moreover have "ssimDen (c1Of options) (c2Of options) (statsAt img1 img2 width height options (wx, wy)) = Fin ?d"
    by (simp only: stats c ssimDen_Fin)
  moreover have "- ?d \<le> ?n" "?n \<le> ?d"
    using ratNum_bounds [OF a b mx my up lo] by simp_all
  moreover have "?d = 0 \<longrightarrow> ?n = 0"
    using ratNum_zero [OF a b vx vy up lo] by simp
  moreover have "positiveConstants options \<longrightarrow> 0 < ?d"
    using pos vx vy by (auto intro: ratDen_pos)
  moreover have "img1 = img2 \<longrightarrow> ?n = ?d"
    by (simp add: ratNum_def ratDen_def directVar_eq_directCov)
  ultimately show ?thesis by blast
qed

lemma valAt_window:
  assumes "validImages img1 img2 width height"
    and "0 < windowSizeOf options"
    and "wx + windowSizeOf options \<le> width" "wy + windowSizeOf options \<le> height"
  shows "valAt img1 img2 width height options (wx, wy) = NaN
         \<or> (\<exists>v. valAt img1 img2 width height options (wx, wy) = Fin v \<and> - 1 \<le> v \<and> v \<le> 1)"
    and "positiveConstants options \<Longrightarrow>
         \<exists>v. valAt img1 img2 width height options (wx, wy) = Fin v \<and> - 1 \<le> v \<and> v \<le> 1"
    and "positiveConstants options \<Longrightarrow> img1 = img2 \<Longrightarrow>
         valAt img1 img2 width height options (wx, wy) = Fin 1"
proof -
  from window_num_den [OF assms] obtain n d
    where n: "ssimNum (c1Of options) (c2Of options) (statsAt img1 img2 width height options (wx, wy)) = Fin n"
      and d: "ssimDen (c1Of options) (c2Of options) (statsAt img1 img2 width height options (wx, wy)) = Fin d"
      and bounds: "- d \<le> n" "n \<le> d" and zero: "d = 0 \<longrightarrow> n = 0"
      and pos: "positiveConstants options \<longrightarrow> 0 < d" and same: "img1 = img2 \<longrightarrow> n = d"
    by blast
  have val: "valAt img1 img2 width height options (wx, wy) = (if d = 0 then NaN else Fin (n / d))"
    using zero by (simp add: valAt_def ssimVal_def n d)
  have range: "- 1 \<le> n / d \<and> n / d \<le> 1" if "d \<noteq> 0"
  proof -
    have "0 < d" using that bounds by linarith
    then show ?thesis using bounds by (simp add: pos_le_divide_eq pos_divide_le_eq)
  qed
  show "valAt img1 img2 width height options (wx, wy) = NaN
         \<or> (\<exists>v. valAt img1 img2 width height options (wx, wy) = Fin v \<and> - 1 \<le> v \<and> v \<le> 1)"
    using val range by auto
  show "\<exists>v. valAt img1 img2 width height options (wx, wy) = Fin v \<and> - 1 \<le> v \<and> v \<le> 1"
    if "positiveConstants options"
    using val range pos that by auto
  show "valAt img1 img2 width height options (wx, wy) = Fin 1"
    if "positiveConstants options" "img1 = img2"
    using val pos same that by auto
qed

section \<open>The denominator\<close>

text \<open>
  Under exact arithmetic, with positive stability constants the denominator of every
  window is positive and the window value is finite.  Rounding is outside this lemma: in
  doubles a small \<open>k2\<close> can underflow \<open>c2\<close> to 0.
\<close>

lemma denominator_positive:
  assumes "validImages img1 img2 width height"
    and "0 < windowSizeOf options"
    and "wx + windowSizeOf options \<le> width" and "wy + windowSizeOf options \<le> height"
    and "positiveConstants options"
  shows "Fin 0 < ssimDen (c1Of options) (c2Of options) (statsAt img1 img2 width height options (wx, wy))
       \<and> isFinite (valAt img1 img2 width height options (wx, wy))"
proof -
  from window_num_den [OF assms(1-4)] assms(5) obtain d
    where "ssimDen (c1Of options) (c2Of options) (statsAt img1 img2 width height options (wx, wy)) = Fin d"
      and "0 < d"
    by blast
  moreover from valAt_window(2) [OF assms] obtain v
    where "valAt img1 img2 width height options (wx, wy) = Fin v"
    by blast
  ultimately show ?thesis by simp
qed

text \<open>
  C6.  The claim is that \<open>k1 > 0\<close> and \<open>k2 > 0\<close> make \<open>c1\<close> and \<open>c2\<close> positive, so that the
  denominator is positive in every window and \<open>0 / 0\<close> is never evaluated.  At
  \<open>bitDepth = 32\<close> the program computes \<open>L = 0\<close> and \<open>c1 = c2 = 0\<close>: on a black pixel the
  numerator and the denominator are both 0 and \<open>val = 0 / 0\<close> is NaN.
\<close>

theorem denominator_at_bitDepth_32:
  "ssimDen (c1Of (Some \<lparr>windowSize = Some 1, k1 = Some (1 / 100), k2 = Some (3 / 100), bitDepth = Some 32\<rparr>))
           (c2Of (Some \<lparr>windowSize = Some 1, k1 = Some (1 / 100), k2 = Some (3 / 100), bitDepth = Some 32\<rparr>))
           (statsAt [0] [0] 1 1 (Some \<lparr>windowSize = Some 1, k1 = Some (1 / 100), k2 = Some (3 / 100), bitDepth = Some 32\<rparr>) (0, 0))
     = Fin 0
   \<and> ssimNum (c1Of (Some \<lparr>windowSize = Some 1, k1 = Some (1 / 100), k2 = Some (3 / 100), bitDepth = Some 32\<rparr>))
           (c2Of (Some \<lparr>windowSize = Some 1, k1 = Some (1 / 100), k2 = Some (3 / 100), bitDepth = Some 32\<rparr>))
           (statsAt [0] [0] 1 1 (Some \<lparr>windowSize = Some 1, k1 = Some (1 / 100), k2 = Some (3 / 100), bitDepth = Some 32\<rparr>) (0, 0))
     = Fin 0
   \<and> valAt [0] [0] 1 1 (Some \<lparr>windowSize = Some 1, k1 = Some (1 / 100), k2 = Some (3 / 100), bitDepth = Some 32\<rparr>) (0, 0)
     = NaN"
  by code_simp

section \<open>The running mean\<close>

lemma accumulate_Fin:
  "accumulate (Fin v) (Fin m, c) = (Fin (m + (v - m) / of_nat (c + 1)), c + 1)"
proof -
  have "(of_nat (c + 1) :: rat) \<noteq> 0" by simp
  then show ?thesis
    by (simp add: accumulate_def Let_def del: of_nat_Suc of_nat_add)
qed

lemma accumulate_step_mean:
  "of_nat (c + 1) * (m + (v - m) / of_nat (c + 1)) = of_nat c * m + v" for m v :: rat
proof -
  have gen: "n * (m + (v - m) / n) = n * m + (v - m)" if "n \<noteq> 0" for n :: rat
    using that by (simp add: distrib_left)
  have "of_nat (c + 1) * (m + (v - m) / of_nat (c + 1)) = of_nat (c + 1) * m + (v - m)"
    by (rule gen) simp
  also have "\<dots> = of_nat c * m + v"
    by (simp add: algebra_simps)
  finally show ?thesis .
qed

lemma fold_accumulate_Fin:
  "\<exists>m'. fold accumulate (map Fin vs) (Fin m, c) = (Fin m', c + length vs)
        \<and> of_nat (c + length vs) * m' = of_nat c * m + sum_list vs"
proof (induction vs arbitrary: m c)
  case Nil
  show ?case by simp
next
  case (Cons v vs)
  let ?m1 = "m + (v - m) / of_nat (c + 1)"
  from Cons.IH [of ?m1 "c + 1"] obtain m'
    where run: "fold accumulate (map Fin vs) (Fin ?m1, c + 1) = (Fin m', c + 1 + length vs)"
      and mean: "of_nat (c + 1 + length vs) * m' = of_nat (c + 1) * ?m1 + sum_list vs"
    by blast
  have "fold accumulate (map Fin (v # vs)) (Fin m, c) = (Fin m', c + length (v # vs))"
    using run by (simp only: list.map fold_simps accumulate_Fin) simp
  moreover have "of_nat (c + length (v # vs)) * m' = of_nat c * m + sum_list (v # vs)"
    using mean by (simp only: accumulate_step_mean) (simp add: add.commute add.left_commute)
  ultimately show ?case by blast
qed

lemma online_mean:
  assumes "vs \<noteq> []"
  shows "fst (fold accumulate (map Fin vs) (Fin 0, 0)) = Fin (sum_list vs / of_nat (length vs))"
proof -
  from fold_accumulate_Fin [of vs 0 0] obtain m'
    where run: "fold accumulate (map Fin vs) (Fin 0, 0) = (Fin m', length vs)"
      and mean: "of_nat (length vs) * m' = sum_list vs"
    by auto
  have "(of_nat (length vs) :: rat) \<noteq> 0" using assms by simp
  then have "m' = sum_list vs / of_nat (length vs)"
    using mean by (simp add: field_simps)
  then show ?thesis by (simp add: run)
qed

lemma fold_sum_Fin: "fold (\<lambda>val sum. sum + val) (map Fin vs) (Fin s) = Fin (s + sum_list vs)"
  by (induction vs arbitrary: s) (simp_all add: add.assoc)

lemma referenceMean_Fin:
  assumes "vs \<noteq> []"
  shows "referenceMean (map Fin vs) = Fin (sum_list vs / of_nat (length vs))"
  using assms by (simp add: referenceMean_def fold_sum_Fin)

lemma fold_sum_from_NaN: "fold (\<lambda>val sum. sum + val) vs NaN = NaN"
  by (induction vs) simp_all

lemma fold_sum_with_NaN: "NaN \<in> set vs \<Longrightarrow> fold (\<lambda>val sum. sum + val) vs s = NaN"
  by (induction vs arbitrary: s) (auto simp: fold_sum_from_NaN)

lemma referenceMean_with_NaN: "NaN \<in> set vs \<Longrightarrow> referenceMean vs = NaN"
  by (simp add: referenceMean_def fold_sum_with_NaN)

lemma all_finite_map: "(\<forall>v \<in> set vs. \<exists>r. v = Fin r) \<Longrightarrow> \<exists>rs. vs = map Fin rs"
  by (simp add: ex_map_conv)

lemma online_equals_reference:
  assumes "vs \<noteq> []" and "\<forall>v \<in> set vs. v = NaN \<or> (\<exists>r. v = Fin r)"
  shows "fst (fold accumulate vs (Fin 0, 0)) = referenceMean vs"
proof (cases "NaN \<in> set vs")
  case True
  then show ?thesis
    by (simp add: fold_accumulate_with_NaN referenceMean_with_NaN)
next
  case False
  with assms(2) have "\<forall>v \<in> set vs. \<exists>r. v = Fin r" by metis
  then obtain rs where rs: "vs = map Fin rs"
    using all_finite_map by blast
  with assms(1) have "rs \<noteq> []" by auto
  then show ?thesis
    by (simp add: rs online_mean referenceMean_Fin)
qed

lemma windowVals_no_infinity:
  assumes "validImages img1 img2 width height"
    and "v \<in> set (windowVals img1 img2 width height options)"
  shows "v = NaN \<or> (\<exists>r. v = Fin r)"
proof -
  from assms(2) obtain wx wy where v: "v = valAt img1 img2 width height options (wx, wy)"
    and inside: "wx + windowSizeOf options \<le> width" "wy + windowSizeOf options \<le> height"
    by (rule windowVals_elem)
  show ?thesis
  proof (cases "windowSizeOf options = 0")
    case True
    then show ?thesis by (simp add: v val_zero_window)
  next
    case False
    then have "0 < windowSizeOf options" by simp
    from valAt_window(1) [OF assms(1) this inside] show ?thesis
      unfolding v by blast
  qed
qed

lemma windowOrder_Suc:
  "windowOrder winW (Suc winH) = windowOrder winW winH @ map (\<lambda>wx. (wx, winH)) [0..<winW]"
  by (simp add: windowOrder_def)

lemma windowOrder_nth:
  assumes "wx < winW" "wy < winH"
  shows "windowOrder winW winH ! (wy * winW + wx) = (wx, wy)"
  using assms(2)
proof (induction winH)
  case 0
  then show ?case by simp
next
  case (Suc winH)
  show ?case
  proof (cases "wy < winH")
    case True
    then have "wy * winW + wx < length (windowOrder winW winH)"
      unfolding length_windowOrder using assms(1) index_less [of wx winW wy winH] by simp
    then show ?thesis
      using Suc.IH [OF True] by (simp add: windowOrder_Suc nth_append)
  next
    case False
    with Suc.prems have "wy = winH" by simp
    then show ?thesis
      using assms(1) by (simp add: windowOrder_Suc nth_append length_windowOrder)
  qed
qed

lemma windowVals_nth:
  assumes "wx < nat (winWOf width options)" "wy < nat (winHOf height options)"
  shows "windowVals img1 img2 width height options ! (wy * nat (winWOf width options) + wx)
           = valAt img1 img2 width height options (wx, wy)"
proof -
  have "wy * nat (winWOf width options) + wx
      < length (windowOrder (nat (winWOf width options)) (nat (winHOf height options)))"
    unfolding length_windowOrder using assms by (rule index_less)
  then show ?thesis
    by (simp add: windowVals_def windowOrder_nth [OF assms])
qed

text \<open>
  C5.  When \<open>winW > 0\<close> and \<open>winH > 0\<close>, the list of the \<open>winW * winH\<close> window values has the
  value of the window \<open>(wx, wy)\<close> at position \<open>wy * winW + wx\<close> (row-major order); the result
  of \<open>ssimGrey\<close> is the incremental update \<open>count += 1; mssim += (val - mssim) / count\<close>
  folded over that list, from \<open>mssim = 0\<close> and \<open>count = 0\<close>; and it equals the arithmetic
  mean of the window values, computed by summing them and dividing by their number.
\<close>

theorem online_mean_is_arithmetic_mean:
  assumes "validImages img1 img2 width height"
    and "0 < winWOf width options" and "0 < winHOf height options"
  shows "length (windowVals img1 img2 width height options)
           = nat (winWOf width options) * nat (winHOf height options)
       \<and> (\<forall>wx wy. wx < nat (winWOf width options) \<longrightarrow> wy < nat (winHOf height options) \<longrightarrow>
             windowVals img1 img2 width height options ! (wy * nat (winWOf width options) + wx)
               = valAt img1 img2 width height options (wx, wy))
       \<and> ssimGrey img1 img2 width height options
           = fst (fold accumulate (windowVals img1 img2 width height options) (Fin 0, 0))
       \<and> ssimGrey img1 img2 width height options
           = referenceMean (windowVals img1 img2 width height options)"
proof -
  have run: "ssimGrey img1 img2 width height options
      = fst (fold accumulate (windowVals img1 img2 width height options) (Fin 0, 0))"
    using assms(2,3) by (simp add: ssimGrey_windowVals)
  have "fst (fold accumulate (windowVals img1 img2 width height options) (Fin 0, 0))
      = referenceMean (windowVals img1 img2 width height options)"
    using windowVals_nonempty [OF assms(2,3)] windowVals_no_infinity [OF assms(1)]
    by (intro online_equals_reference) blast+
  with run have "ssimGrey img1 img2 width height options
      = referenceMean (windowVals img1 img2 width height options)"
    by simp
  moreover have "length (windowVals img1 img2 width height options)
      = nat (winWOf width options) * nat (winHOf height options)"
    by (simp add: windowVals_def length_windowOrder)
  ultimately show ?thesis
    using run windowVals_nth [of _ width options _ height img1 img2] by blast
qed

theorem online_mean_is_arithmetic_mean_witness:
  "validImages [1, 2, 3, 4] [4, 3, 2, 1] 2 2
   \<and> 0 < winWOf 2 (Some \<lparr>windowSize = Some 1, k1 = None, k2 = None, bitDepth = None\<rparr>)
   \<and> 0 < winHOf 2 (Some \<lparr>windowSize = Some 1, k1 = None, k2 = None, bitDepth = None\<rparr>)
   \<and> length (windowVals [1, 2, 3, 4] [4, 3, 2, 1] 2 2
           (Some \<lparr>windowSize = Some 1, k1 = None, k2 = None, bitDepth = None\<rparr>)) = 4
   \<and> windowVals [1, 2, 3, 4] [4, 3, 2, 1] 2 2
           (Some \<lparr>windowSize = Some 1, k1 = None, k2 = None, bitDepth = None\<rparr>) ! 2
       = valAt [1, 2, 3, 4] [4, 3, 2, 1] 2 2
           (Some \<lparr>windowSize = Some 1, k1 = None, k2 = None, bitDepth = None\<rparr>) (0, 1)
   \<and> ssimGrey [1, 2, 3, 4] [4, 3, 2, 1] 2 2 (Some \<lparr>windowSize = Some 1, k1 = None, k2 = None, bitDepth = None\<rparr>)
       = referenceMean (windowVals [1, 2, 3, 4] [4, 3, 2, 1] 2 2
           (Some \<lparr>windowSize = Some 1, k1 = None, k2 = None, bitDepth = None\<rparr>))
   \<and> ssimGrey [1, 2, 3, 4] [4, 3, 2, 1] 2 2 (Some \<lparr>windowSize = Some 1, k1 = None, k2 = None, bitDepth = None\<rparr>)
       = Fin (57415201 / 73337201)"
proof -
  let ?o = "Some \<lparr>windowSize = Some 1, k1 = None, k2 = None, bitDepth = None\<rparr>"
  have valid: "validImages [1, 2, 3, 4] [4, 3, 2, 1] 2 2"
    by (simp add: validImages_def)
  have w: "0 < winWOf 2 ?o" and h: "0 < winHOf 2 ?o"
    by (simp_all add: winWOf_def winHOf_def windowSizeOf_def option_or_def)
  have w2: "nat (winWOf 2 ?o) = 2" and h2: "nat (winHOf 2 ?o) = 2"
    by (simp_all add: winWOf_def winHOf_def windowSizeOf_def option_or_def)
  note mean = online_mean_is_arithmetic_mean [OF valid w h]
  have "length (windowVals [1, 2, 3, 4] [4, 3, 2, 1] 2 2 ?o) = nat (winWOf 2 ?o) * nat (winHOf 2 ?o)"
    using mean by (rule conjunct1)
  then have "length (windowVals [1, 2, 3, 4] [4, 3, 2, 1] 2 2 ?o) = 4"
    unfolding w2 h2 by simp
  moreover have "windowVals [1, 2, 3, 4] [4, 3, 2, 1] 2 2 ?o ! (1 * nat (winWOf 2 ?o) + 0)
      = valAt [1, 2, 3, 4] [4, 3, 2, 1] 2 2 ?o (0, 1)"
    by (rule mean [THEN conjunct2, THEN conjunct1, rule_format]; unfold w2 h2; simp)
  then have "windowVals [1, 2, 3, 4] [4, 3, 2, 1] 2 2 ?o ! 2
      = valAt [1, 2, 3, 4] [4, 3, 2, 1] 2 2 ?o (0, 1)"
    unfolding w2 by simp
  moreover have "ssimGrey [1, 2, 3, 4] [4, 3, 2, 1] 2 2 ?o
      = referenceMean (windowVals [1, 2, 3, 4] [4, 3, 2, 1] 2 2 ?o)"
    using mean by blast
  moreover have "ssimGrey [1, 2, 3, 4] [4, 3, 2, 1] 2 2 ?o = Fin (57415201 / 73337201)"
    by code_simp
  ultimately show ?thesis
    using valid w h by blast
qed

section \<open>The range of the score\<close>

lemma sum_list_bounds:
  fixes rs :: "rat list"
  assumes "\<forall>r \<in> set rs. - 1 \<le> r \<and> r \<le> 1"
  shows "- of_nat (length rs) \<le> sum_list rs \<and> sum_list rs \<le> of_nat (length rs)"
  using assms by (induction rs) auto

lemma online_mean_bounds:
  assumes "rs \<noteq> []" and "\<forall>r \<in> set rs. - 1 \<le> r \<and> r \<le> (1::rat)"
  shows "Fin (- 1) \<le> fst (fold accumulate (map Fin rs) (Fin 0, 0))
       \<and> fst (fold accumulate (map Fin rs) (Fin 0, 0)) \<le> Fin 1"
proof -
  have n: "(0::rat) < of_nat (length rs)" using assms(1) by simp
  from sum_list_bounds [OF assms(2)] n
  have "- 1 \<le> sum_list rs / of_nat (length rs)" "sum_list rs / of_nat (length rs) \<le> 1"
    by (simp_all add: pos_le_divide_eq pos_divide_le_eq)
  then show ?thesis
    by (simp add: online_mean [OF assms(1)])
qed

lemma finite_values_map:
  assumes "\<forall>v \<in> set vs. \<exists>r. v = Fin r \<and> P r"
  shows "\<exists>rs. vs = map Fin rs \<and> (\<forall>r \<in> set rs. P r)"
  using assms
proof (induction vs)
  case Nil
  show ?case by simp
next
  case (Cons v vs)
  then obtain r rs where "v = Fin r" "P r" "vs = map Fin rs" "\<forall>r \<in> set rs. P r"
    by auto
  then have "v # vs = map Fin (r # rs) \<and> (\<forall>r \<in> set (r # rs). P r)"
    by simp
  then show ?case by (rule exI)
qed

text \<open>
  Under exact arithmetic, with positive stability constants and a positive window size
  the score lies between \<open>-1\<close> and \<open>1\<close>.  Rounding is outside this lemma: in doubles the score
  can leave the interval by a rounding error.
\<close>

lemma score_in_range:
  assumes "validImages img1 img2 width height"
    and "0 < windowSizeOf options"
    and "positiveConstants options"
  shows "Fin (- 1) \<le> ssimGrey img1 img2 width height options
       \<and> ssimGrey img1 img2 width height options \<le> Fin 1"
proof (cases "winWOf width options \<le> 0 \<or> winHOf height options \<le> 0")
  case True
  then show ?thesis by (simp add: ssimGrey_windowVals)
next
  case False
  then have pos: "0 < winWOf width options" "0 < winHOf height options" by simp_all
  let ?vs = "windowVals img1 img2 width height options"
  have "\<exists>r. v = Fin r \<and> - 1 \<le> r \<and> r \<le> 1" if "v \<in> set ?vs" for v
  proof -
    from that obtain wx wy where v: "v = valAt img1 img2 width height options (wx, wy)"
      and inside: "wx + windowSizeOf options \<le> width" "wy + windowSizeOf options \<le> height"
      by (rule windowVals_elem)
    from valAt_window(2) [OF assms(1,2) inside assms(3)] show ?thesis
      unfolding v .
  qed
  then have "\<forall>v \<in> set ?vs. \<exists>r. v = Fin r \<and> (- 1 \<le> r \<and> r \<le> 1)" by blast
  then have "\<exists>rs. ?vs = map Fin rs \<and> (\<forall>r \<in> set rs. - 1 \<le> r \<and> r \<le> 1)"
    by (rule finite_values_map)
  then obtain rs where rs: "?vs = map Fin rs" and range: "\<forall>r \<in> set rs. - 1 \<le> r \<and> r \<le> 1"
    by blast
  have "rs \<noteq> []" using windowVals_nonempty [OF pos, of img1 img2] rs by auto
  from online_mean_bounds [OF this range] show ?thesis
    using False by (simp add: ssimGrey_windowVals rs)
qed

text \<open>
  C9.  The claim is that the score lies in \<open>[-1, 1]\<close> for every valid configuration.  At
  \<open>bitDepth = 32\<close>, where the program computes \<open>c1 = c2 = 0\<close>, the score of two black images
  is NaN, which is neither at least \<open>-1\<close> nor at most \<open>1\<close>.
\<close>

theorem score_at_bitDepth_32:
  "\<not> (Fin (- 1) \<le> ssimGrey [0, 0, 0, 0] [0, 0, 0, 0] 2 2
          (Some \<lparr>windowSize = Some 2, k1 = Some (1 / 100), k2 = Some (3 / 100), bitDepth = Some 32\<rparr>)
      \<and> ssimGrey [0, 0, 0, 0] [0, 0, 0, 0] 2 2
          (Some \<lparr>windowSize = Some 2, k1 = Some (1 / 100), k2 = Some (3 / 100), bitDepth = Some 32\<rparr>) \<le> Fin 1)"
  by code_simp

section \<open>Identical images\<close>

lemma all_ones_map: "\<forall>v \<in> set vs. v = Fin 1 \<Longrightarrow> vs = map Fin (replicate (length vs) 1)"
  by (induction vs) simp_all

text \<open>
  Under exact arithmetic, with positive stability constants and a positive window size
  the score of an image against itself is exactly 1.  Rounding is outside this lemma.
\<close>

lemma identical_images_score_one:
  assumes "length img = width * height"
    and "0 < windowSizeOf options"
    and "positiveConstants options"
  shows "ssimGrey img img width height options = Fin 1"
proof (cases "winWOf width options \<le> 0 \<or> winHOf height options \<le> 0")
  case True
  then show ?thesis by (simp add: ssimGrey_windowVals)
next
  case False
  then have pos: "0 < winWOf width options" "0 < winHOf height options" by simp_all
  have valid: "validImages img img width height"
    using assms(1) by (simp add: validImages_def)
  let ?vs = "windowVals img img width height options"
  have one: "v = Fin 1" if "v \<in> set ?vs" for v
  proof -
    from that obtain wx wy where v: "v = valAt img img width height options (wx, wy)"
      and inside: "wx + windowSizeOf options \<le> width" "wy + windowSizeOf options \<le> height"
      by (rule windowVals_elem)
    from valAt_window(3) [OF valid assms(2) inside assms(3)] show ?thesis
      unfolding v by simp
  qed
  then have "?vs = map Fin (replicate (length ?vs) 1)"
    by (intro all_ones_map) blast
  moreover have "replicate (length ?vs) (1::rat) \<noteq> []"
    using windowVals_nonempty [OF pos, of img img] by simp
  ultimately have "fst (fold accumulate ?vs (Fin 0, 0))
      = Fin (sum_list (replicate (length ?vs) 1) / of_nat (length (replicate (length ?vs) (1::rat))))"
    using online_mean [of "replicate (length ?vs) 1"] by simp
  also have "\<dots> = Fin 1"
    using windowVals_nonempty [OF pos, of img img] by (simp add: sum_list_replicate)
  finally show ?thesis
    using False by (simp add: ssimGrey_windowVals)
qed

text \<open>
  C2.  The claim is that an image compared with itself scores exactly 1 for all positive
  options.  At \<open>bitDepth = 32\<close>, where the program computes \<open>c1 = c2 = 0\<close>, the score of a
  black image against itself is NaN.
\<close>

theorem identical_images_at_bitDepth_32:
  "ssimGrey [0] [0] 1 1 (Some \<lparr>windowSize = Some 1, k1 = Some (1 / 100), k2 = Some (3 / 100), bitDepth = Some 32\<rparr>) = NaN"
  by code_simp

end
